theory Spec2Isabelle
  imports Complex_Main "HOL-Library.Word" "HOL-Library.List_Lexorder" "HOL-Library.Log_Nat"
begin

unbundle bit_operations_syntax

section \<open>JavaScript strings and values\<close>

text \<open>
  A JavaScript string is a sequence of 16-bit UTF-16 code units. \<open>expression[i]\<close> is the
  one-unit string at position \<open>i\<close>; a token of the evaluator is such a string. The five
  operator glyphs are single code units of the Basic Multilingual Plane.
\<close>

type_synonym cu = "16 word"
type_synonym jsstring = "cu list"

abbreviation SPACE :: cu where "SPACE \<equiv> 0x20"
abbreviation LPAREN :: cu where "LPAREN \<equiv> 0x28"
abbreviation RPAREN :: cu where "RPAREN \<equiv> 0x29"
abbreviation TILDE :: cu where "TILDE \<equiv> 0x7E"
abbreviation WEDGE :: cu where "WEDGE \<equiv> 0x2227"
abbreviation VEE :: cu where "VEE \<equiv> 0x2228"
abbreviation ARROW :: cu where "ARROW \<equiv> 0x2192"
abbreviation DARROW :: cu where "DARROW \<equiv> 0x2194"

text \<open>The code units of an ASCII literal.\<close>

definition ascii :: "string \<Rightarrow> jsstring" where
  "ascii s = map of_char s"

text \<open>
  The values that flow through the evaluator: booleans, \<open>undefined\<close> (a missing property,
  a \<open>pop\<close> from an empty array, an index out of range) and \<open>null\<close>.
\<close>

datatype jsval = JBool bool | JUndefined | JNull

fun truthy :: "jsval \<Rightarrow> bool" where
  "truthy (JBool b) = b"
| "truthy JUndefined = False"
| "truthy JNull = False"

text \<open>Every \<open>throw new Error(...)\<close> of the two classes, by its message, and the
  \<open>RangeError\<close> that \<open>push\<close> throws on an array that cannot grow.\<close>

datatype error =
    UnknownUnaryOperator jsstring
  | UnknownBinaryOperator jsstring
  | EmptyExpression
  | NoVariablesFound
  | RangeError

text \<open>\<open>Array.prototype.push\<close> appends; \<open>pop\<close> removes the last element and yields
  \<open>undefined\<close> on an empty array, which it leaves empty.\<close>

definition push :: "'a list \<Rightarrow> 'a \<Rightarrow> 'a list" where
  "push xs x = xs @ [x]"

definition pop :: "jsval list \<Rightarrow> jsval \<times> jsval list" where
  "pop stack = (if stack = [] then (JUndefined, []) else (last stack, butlast stack))"

section \<open>LogicEvaluator\<close>

text \<open>The regular expression \<open>/^[a-zA-Z]$/\<close>: exactly one code unit, an ASCII letter.\<close>

definition isLetter :: "cu \<Rightarrow> bool" where
  "isLetter c = ((0x41 \<le> c \<and> c \<le> 0x5A) \<or> (0x61 \<le> c \<and> c \<le> 0x7A))"

fun isVariable :: "jsstring \<Rightarrow> bool" where
  "isVariable [c] = isLetter c"
| "isVariable _ = False"

text \<open>
  The table \<open>this.operators\<close>. A property that an entry does not have reads as
  \<open>undefined\<close>, which is falsy: \<open>unary\<close> and \<open>binary\<close> are \<open>False\<close> there. A key that is not
  in the table reads as \<open>None\<close>. (A multi-unit key such as \<open>constructor\<close> would find an
  inherited property with neither \<open>unary\<close> nor \<open>binary\<close>, on which \<open>evaluatePostfix\<close> does
  nothing, as it does for \<open>None\<close>; \<open>infixToPostfix\<close> only looks up one-unit keys.)
\<close>

record opinfo =
  precedence :: nat
  unary :: bool
  binary :: bool

definition operators :: "jsstring \<Rightarrow> opinfo option" where
  "operators token =
     (if token = [TILDE] then Some \<lparr>precedence = 4, unary = True, binary = False\<rparr>
      else if token = [WEDGE] then Some \<lparr>precedence = 3, unary = False, binary = True\<rparr>
      else if token = [VEE] then Some \<lparr>precedence = 2, unary = False, binary = True\<rparr>
      else if token = [ARROW] then Some \<lparr>precedence = 1, unary = False, binary = True\<rparr>
      else if token = [DARROW] then Some \<lparr>precedence = 1, unary = False, binary = True\<rparr>
      else None)"

subsection \<open>infixToPostfix\<close>

text \<open>The loop of the \<open>)\<close> branch: pop to the output until the top is \<open>(\<close>.\<close>

function popUntilParen :: "jsstring list \<Rightarrow> jsstring list \<Rightarrow> jsstring list \<times> jsstring list" where
  "popUntilParen output operatorStack =
     (if operatorStack \<noteq> [] \<and> last operatorStack \<noteq> [LPAREN]
      then popUntilParen (push output (last operatorStack)) (butlast operatorStack)
      else (output, operatorStack))"
  by pat_completeness auto
termination
  by (relation "measure (\<lambda>(output, operatorStack). length operatorStack)") auto

text \<open>The loop of the operator branch; \<open>p\<close> is \<open>this.operators[char].precedence\<close>.\<close>

function popHigher :: "nat \<Rightarrow> jsstring list \<Rightarrow> jsstring list \<Rightarrow> jsstring list \<times> jsstring list" where
  "popHigher p output operatorStack =
     (if operatorStack \<noteq> [] \<and> last operatorStack \<noteq> [LPAREN] \<and>
         (case operators (last operatorStack) of
            None \<Rightarrow> False
          | Some topinfo \<Rightarrow> p \<le> precedence topinfo)
      then popHigher p (push output (last operatorStack)) (butlast operatorStack)
      else (output, operatorStack))"
  by pat_completeness auto
termination
  by (relation "measure (\<lambda>(p, output, operatorStack). length operatorStack)") auto

text \<open>The final loop: pop whatever is left to the output.\<close>

function popAll :: "jsstring list \<Rightarrow> jsstring list \<Rightarrow> jsstring list" where
  "popAll output operatorStack =
     (if operatorStack \<noteq> []
      then popAll (push output (last operatorStack)) (butlast operatorStack)
      else output)"
  by pat_completeness auto
termination
  by (relation "measure (\<lambda>(output, operatorStack). length operatorStack)") auto

declare popUntilParen.simps [simp del] popHigher.simps [simp del] popAll.simps [simp del]

text \<open>One iteration of the \<open>for\<close> loop, on the code unit \<open>expression[i]\<close>.\<close>

definition infixStep :: "cu \<Rightarrow> jsstring list \<times> jsstring list \<Rightarrow> jsstring list \<times> jsstring list" where
  "infixStep c st =
     (case st of (output, operatorStack) \<Rightarrow>
        if [c] = [SPACE] then (output, operatorStack)
        else if isVariable [c] then (push output [c], operatorStack)
        else if [c] = [LPAREN] then (output, push operatorStack [c])
        else if [c] = [RPAREN] then
          (case popUntilParen output operatorStack of (output', operatorStack') \<Rightarrow>
             if operatorStack' \<noteq> [] \<and> last operatorStack' = [LPAREN]
             then (output', butlast operatorStack')
             else (output', operatorStack'))
        else (case operators [c] of
                Some info \<Rightarrow>
                  (case popHigher (precedence info) output operatorStack of
                     (output', operatorStack') \<Rightarrow> (output', push operatorStack' [c]))
              | None \<Rightarrow> (output, operatorStack)))"

definition infixScan :: "jsstring \<Rightarrow> jsstring list \<times> jsstring list" where
  "infixScan expression = fold infixStep expression ([], [])"

definition infixToPostfix :: "jsstring \<Rightarrow> jsstring list" where
  "infixToPostfix expression =
     (case infixScan expression of (output, operatorStack) \<Rightarrow> popAll output operatorStack)"

subsection \<open>evaluatePostfix\<close>

definition applyUnaryOperator :: "jsstring \<Rightarrow> jsval \<Rightarrow> error + jsval" where
  "applyUnaryOperator operator operand =
     (if operator = [TILDE] then Inr (JBool (\<not> truthy operand))
      else Inl (UnknownUnaryOperator operator))"

text \<open>\<open>a && b\<close> is \<open>b\<close> when \<open>a\<close> is truthy and \<open>a\<close> otherwise; \<open>a || b\<close> is \<open>a\<close> when
  \<open>a\<close> is truthy and \<open>b\<close> otherwise; \<open>!a\<close> and \<open>a === b\<close> are booleans.\<close>

definition applyBinaryOperator :: "jsstring \<Rightarrow> jsval \<Rightarrow> jsval \<Rightarrow> error + jsval" where
  "applyBinaryOperator operator operand1 operand2 =
     (if operator = [WEDGE] then Inr (if truthy operand1 then operand2 else operand1)
      else if operator = [VEE] then Inr (if truthy operand1 then operand1 else operand2)
      else if operator = [ARROW] then
        Inr (if truthy (JBool (\<not> truthy operand1)) then JBool (\<not> truthy operand1) else operand2)
      else if operator = [DARROW] then Inr (JBool (operand1 = operand2))
      else Inl (UnknownBinaryOperator operator))"

text \<open>An assignment object; a key it does not have reads as \<open>undefined\<close>.\<close>

type_synonym assignment = "jsstring \<Rightarrow> bool option"

definition lookup :: "assignment \<Rightarrow> jsstring \<Rightarrow> jsval" where
  "lookup variableValues token =
     (case variableValues token of None \<Rightarrow> JUndefined | Some b \<Rightarrow> JBool b)"

text \<open>The \<open>for ... of\<close> loop over the tokens, with the value stack as accumulator.\<close>

fun evalLoop :: "assignment \<Rightarrow> jsstring list \<Rightarrow> jsval list \<Rightarrow> error + jsval list" where
  "evalLoop variableValues [] stack = Inr stack"
| "evalLoop variableValues (token # rest) stack =
     (if isVariable token then evalLoop variableValues rest (push stack (lookup variableValues token))
      else (case operators token of
              None \<Rightarrow> evalLoop variableValues rest stack
            | Some info \<Rightarrow>
                if unary info then
                  (case pop stack of (operand, stack1) \<Rightarrow>
                     (case applyUnaryOperator token operand of
                        Inl e \<Rightarrow> Inl e
                      | Inr v \<Rightarrow> evalLoop variableValues rest (push stack1 v)))
                else if binary info then
                  (case pop stack of (operand2, stack1) \<Rightarrow>
                     (case pop stack1 of (operand1, stack2) \<Rightarrow>
                        (case applyBinaryOperator token operand1 operand2 of
                           Inl e \<Rightarrow> Inl e
                         | Inr v \<Rightarrow> evalLoop variableValues rest (push stack2 v))))
                else evalLoop variableValues rest stack))"

text \<open>\<open>stack[0]\<close>: the bottom of the stack, \<open>undefined\<close> when the stack is empty.\<close>

fun stack0 :: "jsval list \<Rightarrow> jsval" where
  "stack0 [] = JUndefined"
| "stack0 (v # _) = v"

definition evaluatePostfix :: "jsstring list \<Rightarrow> assignment \<Rightarrow> error + jsval" where
  "evaluatePostfix postfix variableValues =
     (case evalLoop variableValues postfix [] of
        Inl e \<Rightarrow> Inl e
      | Inr stack \<Rightarrow> Inr (stack0 stack))"

text \<open>\<open>evaluate\<close>: the \<open>try\<close> block, and \<open>false\<close> from the \<open>catch\<close>.\<close>

definition evaluate :: "jsstring \<Rightarrow> assignment \<Rightarrow> jsval" where
  "evaluate expression variableValues =
     (case evaluatePostfix (infixToPostfix expression) variableValues of
        Inl e \<Rightarrow> JBool False
      | Inr v \<Rightarrow> v)"

section \<open>TruthTableGenerator\<close>

subsection \<open>getVariables\<close>

text \<open>
  \<open>for (let char of expression)\<close> iterates code points: a lead surrogate followed by a
  trail surrogate is one two-unit string, every other code unit a one-unit string.
\<close>

definition isLeadSurrogate :: "cu \<Rightarrow> bool" where
  "isLeadSurrogate c = (0xD800 \<le> c \<and> c \<le> 0xDBFF)"

definition isTrailSurrogate :: "cu \<Rightarrow> bool" where
  "isTrailSurrogate c = (0xDC00 \<le> c \<and> c \<le> 0xDFFF)"

fun stringIterator :: "jsstring \<Rightarrow> jsstring list" where
  "stringIterator [] = []"
| "stringIterator [c] = [[c]]"
| "stringIterator (c # d # cs) =
     (if isLeadSurrogate c \<and> isTrailSurrogate d then [c, d] # stringIterator cs
      else [c] # stringIterator (d # cs))"

text \<open>A \<open>Set\<close> keeps its elements in insertion order; \<open>add\<close> of a member changes nothing.\<close>

definition setAdd :: "jsstring list \<Rightarrow> jsstring \<Rightarrow> jsstring list" where
  "setAdd variables char = (if char \<in> set variables then variables else push variables char)"

text \<open>
  The test of the loop is the regular expression of \<open>isVariable\<close>, written inline.
  \<open>Array.from(variables).sort()\<close>: the default comparison orders strings by their code
  units, lexicographically, which is the order of \<open>jsstring\<close>.
\<close>

definition getVariables :: "jsstring \<Rightarrow> jsstring list" where
  "getVariables expression =
     sort (fold (\<lambda>char variables. if isVariable char then setAdd variables char else variables)
             (stringIterator expression) [])"

text \<open>\<open>LogicCore.isVariable\<close> and \<open>LogicCore.getVariablesFromExpression\<close>.\<close>

definition coreOperators :: "jsstring list" where
  "coreOperators = [[WEDGE], [VEE], [TILDE], [ARROW], [DARROW]]"

definition coreIsVariable :: "jsstring \<Rightarrow> bool" where
  "coreIsVariable char = (isVariable char \<and> char \<notin> set coreOperators)"

definition getVariablesFromExpression :: "jsstring \<Rightarrow> jsstring list" where
  "getVariablesFromExpression expression =
     sort (fold (\<lambda>char variables. if coreIsVariable char then setAdd variables char else variables)
             (stringIterator expression) [])"

subsection \<open>generateCombinations\<close>

text \<open>
  \<open>(i >> j) & 1 ? true : false\<close>. The shift works on 32 bits: \<open>i\<close> is taken modulo
  \<open>2^32\<close> as a signed value, the shift count modulo 32, and the shift keeps the sign.
\<close>

definition bitAt :: "nat \<Rightarrow> nat \<Rightarrow> bool" where
  "bitAt i j = (signed_drop_bit (j mod 32) (word_of_nat i :: 32 word) AND 1 \<noteq> 0)"

text \<open>The inner loop \<open>for (j = variableCount - 1; j >= 0; j--)\<close>; the second argument is
  \<open>j + 1\<close>.\<close>

fun combinationLoop :: "nat \<Rightarrow> nat \<Rightarrow> bool list \<Rightarrow> bool list" where
  "combinationLoop i 0 combination = combination"
| "combinationLoop i (Suc j) combination = combinationLoop i j (push combination (bitAt i j))"

text \<open>
  An array holds at most \<open>2^32 - 1\<close> elements: the \<open>push\<close> that would make
  \<open>combinations\<close> longer throws a \<open>RangeError\<close>, which nothing in \<open>generateCombinations\<close>
  or \<open>generateTable\<close> catches. (Where an engine runs out of memory sooner is not
  modelled.) \<open>Math.pow(2, variableCount)\<close> is the exact power up to \<open>2^1023\<close> and
  \<open>Infinity\<close> beyond, and the counter \<open>i\<close> is exact below \<open>2^53\<close>; from \<open>2^32\<close> on either
  bound is out of reach of the loop, which stops at the full array, so the exact power is
  the bound here. A \<open>variableCount\<close> of \<open>2^32\<close> or more fills the array \<open>combination\<close>
  first, with the same \<open>RangeError\<close>.
\<close>

definition maxArrayLength :: nat where
  "maxArrayLength = 2 ^ 32 - 1"

function combinationsLoop ::
  "nat \<Rightarrow> nat \<Rightarrow> nat \<Rightarrow> bool list list \<Rightarrow> error + bool list list" where
  "combinationsLoop variableCount totalCombinations i combinations =
     (if i < totalCombinations
      then (if length combinations < maxArrayLength
            then combinationsLoop variableCount totalCombinations (Suc i)
                   (push combinations (combinationLoop i variableCount []))
            else Inl RangeError)
      else Inr combinations)"
  by pat_completeness auto
termination
  by (relation "measure (\<lambda>(variableCount, totalCombinations, i, combinations).
        totalCombinations - i)") auto

declare combinationsLoop.simps [simp del]

definition generateCombinations :: "nat \<Rightarrow> error + bool list list" where
  "generateCombinations variableCount = combinationsLoop variableCount (2 ^ variableCount) 0 []"

subsection \<open>generateTable\<close>

text \<open>\<open>String.prototype.trim\<close> strips white space and line terminators from both ends.\<close>

definition isWhiteSpace :: "cu \<Rightarrow> bool" where
  "isWhiteSpace c =
     (c \<in> {0x09, 0x0A, 0x0B, 0x0C, 0x0D, 0x20, 0xA0, 0x1680, 0x2028, 0x2029, 0x202F, 0x205F,
           0x3000, 0xFEFF}
      \<or> (0x2000 \<le> c \<and> c \<le> 0x200A))"

definition trim :: "jsstring \<Rightarrow> jsstring" where
  "trim s = rev (dropWhile isWhiteSpace (rev (dropWhile isWhiteSpace s)))"

record row =
  index :: nat
  variables :: "bool list"
  result :: jsval
  userAnswer :: jsval

record truthTable =
  expression :: jsstring
  tableVariables :: "jsstring list"
  rows :: "row list"

text \<open>The state of a \<open>TruthTableGenerator\<close>; \<open>null\<close> is \<open>None\<close>.\<close>

record generator =
  currentTable :: "truthTable option"
  userAnswers :: "nat \<Rightarrow> bool option"

text \<open>\<open>variables.forEach((variable, i) => variableValues[variable] = combination[i])\<close>;
  a combination has one value per variable.\<close>

definition assign :: "jsstring list \<Rightarrow> bool list \<Rightarrow> assignment" where
  "assign vars combination =
     fold (\<lambda>(variable, v) variableValues. variableValues(variable \<mapsto> v))
       (zip vars combination) Map.empty"

definition makeRow :: "jsstring \<Rightarrow> jsstring list \<Rightarrow> nat \<times> bool list \<Rightarrow> row" where
  "makeRow expr vars ic =
     (case ic of (i, combination) \<Rightarrow>
        \<lparr>index = i, variables = combination,
         result = evaluate expr (assign vars combination), userAnswer = JNull\<rparr>)"

definition generateTable :: "generator \<Rightarrow> jsstring \<Rightarrow> (error + truthTable) \<times> generator" where
  "generateTable g expr =
     (if expr = [] \<or> trim expr = [] then (Inl EmptyExpression, g)
      else let vars = getVariables expr in
        if length vars = 0 then (Inl NoVariablesFound, g)
        else (case generateCombinations (length vars) of
                Inl e \<Rightarrow> (Inl e, g)
              | Inr combinations \<Rightarrow>
                  let table = \<lparr>expression = expr, tableVariables = vars,
                               rows = map (makeRow expr vars) (enumerate 0 combinations)\<rparr>
                  in (Inr table, g\<lparr>currentTable := Some table\<rparr>)))"

subsection \<open>checkAnswers\<close>

text \<open>
  \<open>collectUserAnswers\<close> reads the page: \<open>selected index\<close> is the checked radio button of
  row \<open>index\<close>, as \<open>selectedRadio.value === 'true'\<close>, and \<open>None\<close> when none is checked.
\<close>

definition collectUserAnswers ::
  "(nat \<Rightarrow> bool option) \<Rightarrow> generator \<Rightarrow> (nat \<Rightarrow> bool option) \<times> generator" where
  "collectUserAnswers selected g =
     (case currentTable g of
        None \<Rightarrow> (Map.empty, g)
      | Some table \<Rightarrow>
          let answers =
                fold (\<lambda>(i, r) answers. case selected i of
                                          None \<Rightarrow> answers
                                        | Some b \<Rightarrow> answers(i \<mapsto> b))
                  (enumerate 0 (rows table)) Map.empty
          in (answers, g\<lparr>userAnswers := answers\<rparr>))"

record rowResult =
  rowIndex :: nat
  rowUserAnswer :: jsval
  correctAnswer :: jsval
  isCorrect :: bool

text \<open>
  Numbers are IEEE 754 doubles. A count is an integer below \<open>2^53\<close> and is exact; the
  quotient \<open>correct / total\<close> and its product with 100 are each rounded to the nearest
  double, a tie going to the even mantissa. \<open>toDouble x\<close> is the double nearest to the
  rational \<open>x\<close>: \<open>exponentOf\<close> finds the exponent that puts the mantissa between \<open>2^52\<close>
  and \<open>2^53\<close>, and \<open>roundHalfEven\<close> rounds the mantissa. This is the rounding of the
  normal range, magnitudes from \<open>2^-1022\<close> up to \<open>2^1024\<close>, which holds every quotient of
  two counts and its product with 100.
\<close>

definition roundHalfEven :: "rat \<Rightarrow> int" where
  "roundHalfEven y =
     (if y - of_int \<lfloor>y\<rfloor> < 1 / 2 then \<lfloor>y\<rfloor>
      else if 1 / 2 < y - of_int \<lfloor>y\<rfloor> then \<lfloor>y\<rfloor> + 1
      else if even \<lfloor>y\<rfloor> then \<lfloor>y\<rfloor> else \<lfloor>y\<rfloor> + 1)"

definition exponentOf :: "rat \<Rightarrow> int" where
  "exponentOf x =
     (case quotient_of x of (p, q) \<Rightarrow>
        if x / 2 powi (bitlen p - bitlen q - 53) < 2 ^ 53
        then bitlen p - bitlen q - 53 else bitlen p - bitlen q - 52)"

definition toDouble :: "rat \<Rightarrow> rat" where
  "toDouble x =
     (if x = 0 then 0
      else sgn x * of_int (roundHalfEven (\<bar>x\<bar> / 2 powi exponentOf \<bar>x\<bar>)) * 2 powi exponentOf \<bar>x\<bar>)"

text \<open>
  \<open>toFixed(1)\<close> of a double that is not negative: the integer \<open>n\<close> with \<open>n / 10\<close> closest to
  its exact value, the larger one of two, printed with one digit after the point.
  \<open>ScoreFixed n\<close> is that string; \<open>ScoreNumber\<close> is the number of the other branch.
\<close>

datatype score = ScoreFixed int | ScoreNumber int

definition toFixed1 :: "rat \<Rightarrow> int" where
  "toFixed1 x = \<lfloor>x * 10 + 1 / 2\<rfloor>"

record checkResult =
  correct :: nat
  total :: nat
  answered :: "nat option"
  isComplete :: bool
  results :: "rowResult list option"
  score :: "score option"

text \<open>The callback of \<open>rows.map\<close>, with the counters it updates.\<close>

fun checkRows ::
  "(nat \<Rightarrow> bool option) \<Rightarrow> (nat \<times> row) list \<Rightarrow> nat \<times> nat \<times> rowResult list
     \<Rightarrow> nat \<times> nat \<times> rowResult list" where
  "checkRows answers [] acc = acc"
| "checkRows answers ((i, r) # rest) (nCorrect, nAnswered, out) =
     (case answers i of
        Some ua \<Rightarrow>
          (let ok = (JBool ua = result r)
           in checkRows answers rest
                (if ok then nCorrect + 1 else nCorrect, nAnswered + 1,
                 push out \<lparr>rowIndex = i, rowUserAnswer = JBool ua,
                           correctAnswer = result r, isCorrect = ok\<rparr>))
      | None \<Rightarrow>
          checkRows answers rest
            (nCorrect, nAnswered,
             push out \<lparr>rowIndex = i, rowUserAnswer = JNull,
                       correctAnswer = result r, isCorrect = False\<rparr>))"

definition checkAnswers :: "(nat \<Rightarrow> bool option) \<Rightarrow> generator \<Rightarrow> checkResult \<times> generator" where
  "checkAnswers selected g =
     (case collectUserAnswers selected g of (collected, g') \<Rightarrow>
        (case currentTable g' of
           None \<Rightarrow>
             (\<lparr>correct = 0, total = 0, answered = None, isComplete = False,
               results = None, score = None\<rparr>, g')
         | Some table \<Rightarrow>
             (case checkRows (userAnswers g') (enumerate 0 (rows table)) (0, 0, []) of
                (nCorrect, nAnswered, out) \<Rightarrow>
                  (\<lparr>correct = nCorrect, total = length (rows table),
                    answered = Some nAnswered,
                    isComplete = (nAnswered = length (rows table)),
                    results = Some out,
                    score = Some (if length (rows table) > 0
                                  then ScoreFixed (toFixed1 (toDouble (toDouble
                                         (of_nat nCorrect / of_nat (length (rows table)))
                                         * 100)))
                                  else ScoreNumber 0)\<rparr>, g'))))"

section \<open>Notions used in the statements\<close>

subsection \<open>The formulas the application builds\<close>

text \<open>
  \<open>LogicCore.applyNegation\<close> builds the text \<open>(~e)\<close> from an element \<open>e\<close>, and
  \<open>LogicCore.applyBinaryOperator\<close> the text \<open>(e1 op e2)\<close> from two elements;
  \<open>generateRandomFormula\<close> uses the same two shapes. The elements they start from are
  variables. \<open>render\<close> is the text of such a formula and \<open>rpn\<close> its postfix form.
\<close>

datatype binop = Conj | Disj | Impl | Equiv

datatype formula = Var cu | Neg formula | Bin formula binop formula

fun glyph :: "binop \<Rightarrow> cu" where
  "glyph Conj = WEDGE"
| "glyph Disj = VEE"
| "glyph Impl = ARROW"
| "glyph Equiv = DARROW"

fun render :: "formula \<Rightarrow> jsstring" where
  "render (Var c) = [c]"
| "render (Neg f) = [LPAREN, TILDE] @ render f @ [RPAREN]"
| "render (Bin f op g) = [LPAREN] @ render f @ [glyph op] @ render g @ [RPAREN]"

fun rpn :: "formula \<Rightarrow> jsstring list" where
  "rpn (Var c) = [[c]]"
| "rpn (Neg f) = rpn f @ [[TILDE]]"
| "rpn (Bin f op g) = rpn f @ rpn g @ [[glyph op]]"

fun atoms :: "formula \<Rightarrow> cu list" where
  "atoms (Var c) = [c]"
| "atoms (Neg f) = atoms f"
| "atoms (Bin f op g) = atoms f @ atoms g"

text \<open>The truth value of a formula, by the truth tables of the specification.\<close>

fun denoteBin :: "binop \<Rightarrow> bool \<Rightarrow> bool \<Rightarrow> bool" where
  "denoteBin Conj a b = (a \<and> b)"
| "denoteBin Disj a b = (a \<or> b)"
| "denoteBin Impl a b = (\<not> a \<or> b)"
| "denoteBin Equiv a b = (a = b)"

fun denote :: "(cu \<Rightarrow> bool) \<Rightarrow> formula \<Rightarrow> bool" where
  "denote \<rho> (Var c) = \<rho> c"
| "denote \<rho> (Neg f) = (\<not> denote \<rho> f)"
| "denote \<rho> (Bin f op g) = denoteBin op (denote \<rho> f) (denote \<rho> g)"

text \<open>The assignment object \<open>vv\<close> gives every variable of \<open>f\<close>, a letter, its value under
  \<open>\<rho>\<close>.\<close>

definition covers :: "assignment \<Rightarrow> (cu \<Rightarrow> bool) \<Rightarrow> formula \<Rightarrow> bool" where
  "covers vv \<rho> f = list_all (\<lambda>c. isLetter c \<and> vv [c] = Some (\<rho> c)) (atoms f)"

subsection \<open>The operator stack\<close>

text \<open>
  The loop conditions of \<open>popUntilParen\<close> and \<open>popHigher\<close> as predicates on the top of the
  stack, and the precedence of a stack element.
\<close>

definition notParen :: "jsstring \<Rightarrow> bool" where
  "notParen t = (t \<noteq> [LPAREN])"

definition prec :: "jsstring \<Rightarrow> nat" where
  "prec t = (case operators t of None \<Rightarrow> 0 | Some info \<Rightarrow> precedence info)"

definition outranks :: "nat \<Rightarrow> jsstring \<Rightarrow> bool" where
  "outranks p t =
     (t \<noteq> [LPAREN] \<and> (case operators t of None \<Rightarrow> False | Some info \<Rightarrow> p \<le> precedence info))"

definition isOperator :: "jsstring \<Rightarrow> bool" where
  "isOperator t = (case operators t of None \<Rightarrow> False | Some info \<Rightarrow> True)"

text \<open>The part of the stack above its topmost \<open>(\<close>, and the rest, from that \<open>(\<close> down; both
  in the order of the array, bottom first.\<close>

definition aboveParen :: "jsstring list \<Rightarrow> jsstring list" where
  "aboveParen st = rev (takeWhile notParen (rev st))"

definition belowParen :: "jsstring list \<Rightarrow> jsstring list" where
  "belowParen st = rev (dropWhile notParen (rev st))"

text \<open>
  The invariant of the scan, on the stack read from the top: every element is \<open>(\<close> or an
  operator, and an operator directly above another operator has the higher precedence.
  The output holds variables and operators only.
\<close>

fun stackOk :: "jsstring list \<Rightarrow> bool" where
  "stackOk [] = True"
| "stackOk (t # ts) =
     ((if t = [LPAREN] then True
       else isOperator t \<and> (case ts of [] \<Rightarrow> True
                             | u # us \<Rightarrow> if u = [LPAREN] then True else prec u < prec t))
      \<and> stackOk ts)"

definition operandOrOperator :: "jsstring \<Rightarrow> bool" where
  "operandOrOperator t = (isVariable t \<or> isOperator t)"

definition scanInv :: "jsstring list \<times> jsstring list \<Rightarrow> bool" where
  "scanInv s = (case s of (out, st) \<Rightarrow> list_all operandOrOperator out \<and> stackOk (rev st))"

definition postfixToken :: "jsstring \<Rightarrow> bool" where
  "postfixToken t = (isVariable t \<or> isOperator t \<or> t = [LPAREN])"

text \<open>The values of the evaluation stack: booleans and \<open>undefined\<close>.\<close>

definition notNull :: "jsval \<Rightarrow> bool" where
  "notNull v = (case v of JNull \<Rightarrow> False | JUndefined \<Rightarrow> True | JBool b \<Rightarrow> True)"

subsection \<open>Variables, combinations and answers\<close>

text \<open>The body of the loop of \<open>getVariables\<close>.\<close>

definition collect :: "jsstring \<Rightarrow> jsstring list \<Rightarrow> jsstring list" where
  "collect char vars = (if isVariable char then setAdd vars char else vars)"

text \<open>The big-endian \<open>n\<close>-bit representation of \<open>i\<close>, and the number a tuple denotes when
  read most significant bit first.\<close>

definition bigEndian :: "nat \<Rightarrow> nat \<Rightarrow> bool list" where
  "bigEndian n i = map (\<lambda>k. bit i (n - 1 - k)) [0..<n]"

definition bigEndianValue :: "bool list \<Rightarrow> nat" where
  "bigEndianValue bs = foldl (\<lambda>acc b. 2 * acc + of_bool b) 0 bs"

text \<open>The list that the two loops of \<open>generateCombinations\<close> build when no \<open>push\<close> fails,
  and the table that \<open>generateTable\<close> builds from it.\<close>

definition tuples :: "nat \<Rightarrow> bool list list" where
  "tuples n = map (\<lambda>i. map (bitAt i) (rev [0..<n])) [0..<2 ^ n]"

definition tableOf :: "jsstring \<Rightarrow> truthTable" where
  "tableOf expr =
     \<lparr>expression = expr, tableVariables = getVariables expr,
      rows = map (makeRow expr (getVariables expr))
               (enumerate 0 (tuples (length (getVariables expr))))\<rparr>"

text \<open>The entry of \<open>results\<close> for the row at position \<open>i\<close>, and whether that row has an
  answer.\<close>

definition rowResultOf :: "(nat \<Rightarrow> bool option) \<Rightarrow> nat \<times> row \<Rightarrow> rowResult" where
  "rowResultOf answers ir =
     (case ir of (i, r) \<Rightarrow>
        (case answers i of
           None \<Rightarrow> \<lparr>rowIndex = i, rowUserAnswer = JNull, correctAnswer = result r,
                     isCorrect = False\<rparr>
         | Some ua \<Rightarrow> \<lparr>rowIndex = i, rowUserAnswer = JBool ua, correctAnswer = result r,
                       isCorrect = (JBool ua = result r)\<rparr>))"

definition isAnswered :: "(nat \<Rightarrow> bool option) \<Rightarrow> nat \<times> row \<Rightarrow> bool" where
  "isAnswered answers ir = (case answers (fst ir) of None \<Rightarrow> False | Some ua \<Rightarrow> True)"

text \<open>The table of \<open>(p\<and>q)\<close>, and a page on which rows 0 and 3 are answered \<open>true\<close>.\<close>

definition sampleTable :: truthTable where
  "sampleTable =
     \<lparr>expression = [LPAREN, 0x70, WEDGE, 0x71, RPAREN], tableVariables = [[0x70], [0x71]],
      rows =
        [\<lparr>index = 0, variables = [False, False], result = JBool False, userAnswer = JNull\<rparr>,
         \<lparr>index = 1, variables = [False, True], result = JBool False, userAnswer = JNull\<rparr>,
         \<lparr>index = 2, variables = [True, False], result = JBool False, userAnswer = JNull\<rparr>,
         \<lparr>index = 3, variables = [True, True], result = JBool True, userAnswer = JNull\<rparr>]\<rparr>"

definition sampleAnswers :: "nat \<Rightarrow> bool option" where
  "sampleAnswers i = (if i = 0 then Some True else if i = 3 then Some True else None)"

text \<open>A table of 80 rows, all with the result \<open>true\<close>, put in \<open>currentTable\<close> by hand, and a
  page on which the first 23 rows are answered \<open>true\<close> and the others \<open>false\<close>.\<close>

definition wideTable :: truthTable where
  "wideTable =
     \<lparr>expression = [], tableVariables = [],
      rows = map (\<lambda>i. \<lparr>index = i, variables = [], result = JBool True, userAnswer = JNull\<rparr>)
               [0..<80]\<rparr>"

definition wideAnswers :: "nat \<Rightarrow> bool option" where
  "wideAnswers i = Some (i < 23)"

section \<open>Properties of the evaluator\<close>

lemma popAll_rev: "popAll out (rev ts) = out @ ts"
proof (induction ts arbitrary: out)
  case Nil
  show ?case by (simp add: popAll.simps)
next
  case (Cons t ts)
  have "popAll out (rev (t # ts)) = popAll (out @ [t]) (rev ts)"
    by (subst popAll.simps) (simp add: push_def)
  then show ?case by (simp add: Cons.IH)
qed

lemma popAll_eq: "popAll out st = out @ rev st"
  using popAll_rev [of out "rev st"] by simp

lemma popUntilParen_unfold:
  "popUntilParen out st =
     (if st \<noteq> [] \<and> notParen (last st) then popUntilParen (out @ [last st]) (butlast st)
      else (out, st))"
  by (subst popUntilParen.simps) (simp add: notParen_def push_def)

lemma popUntilParen_rev:
  "popUntilParen out (rev ts) = (out @ takeWhile notParen ts, rev (dropWhile notParen ts))"
proof (induction ts arbitrary: out)
  case Nil
  show ?case by (simp add: popUntilParen_unfold)
next
  case (Cons t ts)
  show ?case by (subst popUntilParen_unfold) (simp add: Cons.IH)
qed

lemma popHigher_unfold:
  "popHigher p out st =
     (if st \<noteq> [] \<and> outranks p (last st) then popHigher p (out @ [last st]) (butlast st)
      else (out, st))"
  by (subst popHigher.simps) (simp add: outranks_def push_def)

lemma popHigher_rev:
  "popHigher p out (rev ts) = (out @ takeWhile (outranks p) ts, rev (dropWhile (outranks p) ts))"
proof (induction ts arbitrary: out)
  case Nil
  show ?case by (simp add: popHigher_unfold)
next
  case (Cons t ts)
  show ?case by (subst popHigher_unfold) (simp add: Cons.IH)
qed

lemma operators_cases:
  "operators t = Some info \<Longrightarrow> t \<in> {[TILDE], [WEDGE], [VEE], [ARROW], [DARROW]}"
  by (simp add: operators_def split: if_splits)

lemma operator_not_letter: "operators [c] = Some info \<Longrightarrow> \<not> isLetter c"
  by (auto simp: isLetter_def dest!: operators_cases)

lemma operator_not_special:
  "operators [c] = Some info \<Longrightarrow> c \<noteq> SPACE \<and> c \<noteq> LPAREN \<and> c \<noteq> RPAREN"
  by (auto dest!: operators_cases)

lemma letter_not_special: "isLetter c \<Longrightarrow> c \<noteq> SPACE \<and> c \<noteq> LPAREN \<and> c \<noteq> RPAREN"
  by (auto simp: isLetter_def)

text \<open>The five branches of one iteration.\<close>

lemma infixStep_space: "infixStep SPACE (out, st) = (out, st)"
  by (simp add: infixStep_def)

lemma infixStep_letter: "isLetter c \<Longrightarrow> infixStep c (out, st) = (out @ [[c]], st)"
  using letter_not_special [of c] by (simp add: infixStep_def push_def)

lemma infixStep_lparen: "infixStep LPAREN (out, st) = (out, st @ [[LPAREN]])"
  by (simp add: infixStep_def push_def isLetter_def)

lemma infixStep_rparen:
  "infixStep RPAREN (out, rev ts) =
     (out @ takeWhile notParen ts, rev (tl (dropWhile notParen ts)))"
proof -
  have hd: "dropWhile notParen ts \<noteq> [] \<Longrightarrow> hd (dropWhile notParen ts) = [LPAREN]"
    using hd_dropWhile [of notParen ts] by (simp add: notParen_def)
  show ?thesis
  proof (cases "dropWhile notParen ts")
    case Nil
    then show ?thesis
      by (simp add: infixStep_def popUntilParen_rev isLetter_def del: dropWhile_eq_Nil_conv)
  next
    case (Cons u us)
    with hd have "u = [LPAREN]" by simp
    with Cons show ?thesis
      by (simp add: infixStep_def popUntilParen_rev isLetter_def)
  qed
qed

lemma infixStep_operator:
  assumes "operators [c] = Some info"
  shows "infixStep c (out, rev ts) =
     (out @ takeWhile (outranks (precedence info)) ts,
      rev (dropWhile (outranks (precedence info)) ts) @ [[c]])"
  using assms operator_not_letter [OF assms] operator_not_special [OF assms]
  by (simp add: infixStep_def popHigher_rev push_def)

lemma infixStep_other:
  assumes "c \<noteq> SPACE" "\<not> isLetter c" "c \<noteq> LPAREN" "c \<noteq> RPAREN" "operators [c] = None"
  shows "infixStep c s = s"
  using assms by (cases s) (simp add: infixStep_def)

lemma infixStep_operator_on_paren:
  assumes "operators [c] = Some info"
  shows "infixStep c (out, st @ [[LPAREN]]) = (out, st @ [[LPAREN], [c]])"
  using infixStep_operator [OF assms, of out "[LPAREN] # rev st"]
  by (simp add: outranks_def)

lemma infixStep_close:
  assumes "t \<noteq> [LPAREN]"
  shows "infixStep RPAREN (out, st @ [[LPAREN], t]) = (out @ [t], st)"
  using infixStep_rparen [of out "t # [LPAREN] # rev st"] assms
  by (simp add: notParen_def)

lemma infixScan_render:
  "list_all isLetter (atoms f) \<Longrightarrow> fold infixStep (render f) (out, st) = (out @ rpn f, st)"
proof (induction f arbitrary: out st)
  case (Var c)
  then show ?case by (simp add: infixStep_letter)
next
  case (Neg f)
  have op: "operators [TILDE] = Some \<lparr>precedence = 4, unary = True, binary = False\<rparr>"
    by (simp add: operators_def)
  from Neg show ?case
    by (simp add: infixStep_lparen infixStep_operator_on_paren [OF op] infixStep_close)
next
  case (Bin f op g)
  obtain info where op: "operators [glyph op] = Some info"
    by (cases op) (simp_all add: operators_def)
  have np: "[glyph op] \<noteq> [LPAREN]"
    by (cases op) simp_all
  from Bin show ?case
    by (simp add: infixStep_lparen infixStep_operator_on_paren [OF op] infixStep_close [OF np])
qed

lemma infixToPostfix_render:
  "list_all isLetter (atoms f) \<Longrightarrow> infixToPostfix (render f) = rpn f"
  by (simp add: infixToPostfix_def infixScan_def infixScan_render popAll_eq)

lemma pop_snoc: "pop (stack @ [v]) = (v, stack)"
  by (simp add: pop_def)

lemma evalLoop_variable:
  "isLetter c \<Longrightarrow>
   evalLoop vv ([c] # rest) stack = evalLoop vv rest (stack @ [lookup vv [c]])"
  by (simp add: push_def)

lemma evalLoop_tilde:
  "evalLoop vv ([TILDE] # rest) (stack @ [x]) = evalLoop vv rest (stack @ [JBool (\<not> truthy x)])"
  by (simp add: operators_def isLetter_def pop_snoc applyUnaryOperator_def push_def)

lemma evalLoop_glyph:
  "evalLoop vv ([glyph op] # rest) (stack @ [JBool a, JBool b]) =
   evalLoop vv rest (stack @ [JBool (denoteBin op a b)])"
proof -
  have p2: "pop (stack @ [JBool a, JBool b]) = (JBool b, stack @ [JBool a])"
    using pop_snoc [of "stack @ [JBool a]" "JBool b"] by simp
  show ?thesis
    by (cases op)
       (simp_all add: operators_def isLetter_def p2 pop_snoc applyBinaryOperator_def push_def)
qed

declare evalLoop.simps(2) [simp del]

lemma evalLoop_rpn:
  "covers vv \<rho> f \<Longrightarrow>
   evalLoop vv (rpn f @ rest) stack = evalLoop vv rest (stack @ [JBool (denote \<rho> f)])"
proof (induction f arbitrary: rest stack)
  case (Var c)
  then show ?case by (simp add: covers_def evalLoop_variable lookup_def)
next
  case (Neg f)
  then have "covers vv \<rho> f" by (simp add: covers_def)
  then show ?case using Neg.IH [of "[TILDE] # rest" stack]
    by (simp add: evalLoop_tilde)
next
  case (Bin f op g)
  then have cf: "covers vv \<rho> f" and cg: "covers vv \<rho> g" by (simp_all add: covers_def)
  have "evalLoop vv (rpn (Bin f op g) @ rest) stack =
        evalLoop vv (rpn g @ [glyph op] # rest) (stack @ [JBool (denote \<rho> f)])"
    using Bin.IH(1) [OF cf, of "rpn g @ [glyph op] # rest" stack] by simp
  also have "\<dots> = evalLoop vv ([glyph op] # rest)
                    (stack @ [JBool (denote \<rho> f), JBool (denote \<rho> g)])"
    using Bin.IH(2) [OF cg, of "[glyph op] # rest" "stack @ [JBool (denote \<rho> f)]"] by simp
  also have "\<dots> = evalLoop vv rest (stack @ [JBool (denote \<rho> (Bin f op g))])"
    by (simp add: evalLoop_glyph)
  finally show ?case .
qed

lemma covers_letters: "covers vv \<rho> f \<Longrightarrow> list_all isLetter (atoms f)"
  by (simp add: covers_def list_all_iff)

lemma evaluate_render: "covers vv \<rho> f \<Longrightarrow> evaluate (render f) vv = JBool (denote \<rho> f)"
  using evalLoop_rpn [of vv \<rho> f "[]" "[]"]
  by (simp add: evaluate_def evaluatePostfix_def infixToPostfix_render covers_letters)

lemma stackOk_tl: "stackOk ts \<Longrightarrow> stackOk (tl ts)"
  by (cases ts) simp_all

lemma stackOk_dropWhile: "stackOk ts \<Longrightarrow> stackOk (dropWhile P ts)"
  by (induction ts) simp_all

lemma stackOk_elem: "stackOk ts \<Longrightarrow> t \<in> set ts \<Longrightarrow> t \<noteq> [LPAREN] \<Longrightarrow> isOperator t"
  by (induction ts) (auto split: if_splits)

lemma outranks_iff: "isOperator t \<Longrightarrow> t \<noteq> [LPAREN] \<Longrightarrow> outranks p t = (p \<le> prec t)"
  by (auto simp: isOperator_def outranks_def prec_def split: option.splits)

lemma outranks_operator: "outranks p t \<Longrightarrow> isOperator t"
  by (auto simp: isOperator_def outranks_def split: option.splits)

lemma outranks_paren: "\<not> outranks p [LPAREN]"
  by (simp add: outranks_def)

lemma isOperator_Some: "operators t = Some info \<Longrightarrow> isOperator t \<and> prec t = precedence info"
  by (simp add: isOperator_def prec_def)

lemma stackOk_push_operator:
  assumes ok: "stackOk ts" and op: "operators [c] = Some info"
  shows "stackOk ([c] # dropWhile (outranks (precedence info)) ts)"
proof -
  let ?p = "precedence info"
  have c: "isOperator [c]" "prec [c] = ?p" "[c] \<noteq> [LPAREN]"
    using isOperator_Some [OF op] operator_not_special [OF op] by simp_all
  have rest: "stackOk (dropWhile (outranks ?p) ts)"
    using ok by (rule stackOk_dropWhile)
  show ?thesis
  proof (cases "dropWhile (outranks ?p) ts")
    case Nil
    with c show ?thesis by (simp del: dropWhile_eq_Nil_conv)
  next
    case (Cons u us)
    have mem: "u \<in> set ts"
      using Cons set_dropWhileD [of u "outranks ?p" ts] by simp
    have low: "\<not> outranks ?p u"
      using hd_dropWhile [of "outranks ?p" ts] Cons by simp
    have "u = [LPAREN] \<or> prec u < ?p"
    proof (cases "u = [LPAREN]")
      case True
      then show ?thesis by simp
    next
      case False
      then have "isOperator u" using stackOk_elem [OF ok mem] by simp
      then have "outranks ?p u = (?p \<le> prec u)" using False by (rule outranks_iff)
      with low show ?thesis by simp
    qed
    with c rest Cons show ?thesis by auto
  qed
qed

lemma scanInv_step: "scanInv s \<Longrightarrow> scanInv (infixStep c s)"
proof -
  assume inv: "scanInv s"
  obtain out st where s: "s = (out, st)" by (cases s)
  define ts where "ts = rev st"
  then have st: "st = rev ts" by simp
  from inv have out: "list_all operandOrOperator out" and ok: "stackOk ts"
    by (simp_all add: scanInv_def s st)
  consider (space) "c = SPACE" | (letter) "isLetter c" | (lparen) "c = LPAREN"
    | (rparen) "c = RPAREN" | (oper) info where "operators [c] = Some info"
    | (other) "c \<noteq> SPACE" "\<not> isLetter c" "c \<noteq> LPAREN" "c \<noteq> RPAREN" "operators [c] = None"
    by (cases "operators [c]") auto
  then show ?thesis
  proof cases
    case space
    with inv show ?thesis by (simp add: s infixStep_space)
  next
    case letter
    with out ok show ?thesis
      by (simp add: s st infixStep_letter scanInv_def operandOrOperator_def)
  next
    case lparen
    with out ok show ?thesis
      by (simp add: s st infixStep_lparen scanInv_def)
  next
    case rparen
    have "list_all operandOrOperator (takeWhile notParen ts)"
      unfolding list_all_iff
    proof
      fix t assume t: "t \<in> set (takeWhile notParen ts)"
      then have "t \<in> set ts" "notParen t"
        by (blast dest: set_takeWhileD)+
      then show "operandOrOperator t"
        using stackOk_elem [OF ok, of t] by (simp add: operandOrOperator_def notParen_def)
    qed
    moreover have "stackOk (tl (dropWhile notParen ts))"
      using ok by (intro stackOk_tl stackOk_dropWhile)
    ultimately show ?thesis
      using out by (simp add: s st rparen infixStep_rparen scanInv_def)
  next
    case oper
    have "list_all operandOrOperator (takeWhile (outranks (precedence info)) ts)"
      unfolding list_all_iff
    proof
      fix t assume "t \<in> set (takeWhile (outranks (precedence info)) ts)"
      then have "outranks (precedence info) t"
        by (blast dest: set_takeWhileD)
      then show "operandOrOperator t"
        by (simp add: operandOrOperator_def outranks_operator)
    qed
    then show ?thesis
      using out stackOk_push_operator [OF ok oper]
      by (simp add: s st infixStep_operator [OF oper] scanInv_def)
  next
    case other
    with inv show ?thesis by (simp add: infixStep_other)
  qed
qed

lemma scanInv_fold: "scanInv s \<Longrightarrow> scanInv (fold infixStep e s)"
  by (induction e arbitrary: s) (simp_all add: scanInv_step)

lemma scanInv_infixScan: "scanInv (infixScan e)"
  unfolding infixScan_def by (rule scanInv_fold) (simp add: scanInv_def)

lemma operandOrOperator_not_paren: "operandOrOperator t \<Longrightarrow> t \<noteq> [LPAREN] \<and> t \<noteq> [RPAREN]"
  by (auto simp: operandOrOperator_def isOperator_def operators_def isLetter_def split: if_splits)

lemma applyUnary_ok: "operators token = Some info \<Longrightarrow> unary info \<Longrightarrow>
   applyUnaryOperator token operand = Inr (JBool (\<not> truthy operand))"
  by (auto simp: operators_def applyUnaryOperator_def split: if_splits)

lemma applyBinary_ok: "operators token = Some info \<Longrightarrow> \<not> unary info \<Longrightarrow>
   \<exists>v. applyBinaryOperator token a b = Inr v"
  by (auto simp: operators_def applyBinaryOperator_def split: if_splits)

lemma evalLoop_skip_paren: "evalLoop vv ([LPAREN] # rest) stack = evalLoop vv rest stack"
  by (simp add: evalLoop.simps(2) operators_def isLetter_def)

lemma pop_cases: "pop stack = (v, stack') \<Longrightarrow> (v = JUndefined \<or> v \<in> set stack) \<and> set stack' \<subseteq> set stack"
  by (cases stack rule: rev_cases) (auto simp: pop_def)

lemma applyBinary_value:
  "applyBinaryOperator token a b = Inr v \<Longrightarrow> v = a \<or> v = b \<or> (\<exists>x. v = JBool x)"
  by (auto simp: applyBinaryOperator_def split: if_splits)

lemma notNull_simps [simp]: "notNull (JBool b)" "notNull JUndefined" "\<not> notNull JNull"
  by (simp_all add: notNull_def)

lemma lookup_notNull: "notNull (lookup vv t)"
  by (simp add: lookup_def split: option.splits)

lemma evalLoop_returns:
  "list_all notNull stack \<Longrightarrow>
   \<exists>stack'. evalLoop vv tokens stack = Inr stack' \<and> list_all notNull stack'"
proof (induction tokens arbitrary: stack)
  case Nil
  then show ?case by simp
next
  case (Cons token rest)
  note ok = Cons.prems
  show ?case
  proof (cases "isVariable token")
    case True
    then show ?thesis
      using Cons.IH [of "stack @ [lookup vv token]"] ok
      by (simp add: evalLoop.simps(2) push_def lookup_notNull)
  next
    case notvar: False
    show ?thesis
    proof (cases "operators token")
      case None
      with notvar show ?thesis using Cons.IH [OF ok] by (simp add: evalLoop.simps(2))
    next
      case (Some info)
      obtain o2 s1 where p1: "pop stack = (o2, s1)" by (cases "pop stack")
      obtain o1 s2 where p2: "pop s1 = (o1, s2)" by (cases "pop s1")
      have s1: "list_all notNull s1" and o2: "notNull o2"
        using pop_cases [OF p1] ok by (auto simp: list_all_iff)
      have s2: "list_all notNull s2" and o1: "notNull o1"
        using pop_cases [OF p2] s1 by (auto simp: list_all_iff)
      show ?thesis
      proof (cases "unary info")
        case True
        have "list_all notNull (s1 @ [JBool (\<not> truthy o2)])" using s1 by simp
        from Cons.IH [OF this] notvar Some True p1 show ?thesis
          by (simp add: evalLoop.simps(2) applyUnary_ok push_def)
      next
        case False
        obtain v where v: "applyBinaryOperator token o1 o2 = Inr v"
          using applyBinary_ok [OF Some False] by blast
        have "notNull v" using applyBinary_value [OF v] o1 o2 by auto
        then have "list_all notNull (s2 @ [v])" using s2 by simp
        from Cons.IH [OF this] notvar Some False p1 p2 v show ?thesis
          using Cons.IH [OF ok] by (simp add: evalLoop.simps(2) push_def)
      qed
    qed
  qed
qed

lemma stack0_notNull: "list_all notNull stack \<Longrightarrow> notNull (stack0 stack)"
  by (cases stack) simp_all

lemma evaluatePostfix_returns:
  "\<exists>v. evaluatePostfix tokens vv = Inr v \<and> notNull v"
proof -
  obtain stack where "evalLoop vv tokens [] = Inr stack" "list_all notNull stack"
    using evalLoop_returns [of "[]" vv tokens] by auto
  then show ?thesis by (simp add: evaluatePostfix_def stack0_notNull)
qed

lemma notNull_cases: "notNull v \<Longrightarrow> v = JUndefined \<or> (\<exists>b. v = JBool b)"
  by (cases v) simp_all

subsection \<open>Claim C1\<close>

text \<open>
  \<open>evaluatePostfix\<close> follows the truth tables with the stated operand order. With \<open>b\<close> on
  top of the stack and \<open>a\<close> below it, \<open>b\<close> is popped first and is the right operand; the
  token \<open>\<and>\<close> replaces the two by \<open>a \<and> b\<close>, \<open>\<or>\<close> by \<open>a \<or> b\<close>, \<open>\<rightarrow>\<close> by \<open>\<not> a \<or> b\<close>, \<open>\<leftrightarrow>\<close> by
  \<open>a = b\<close>, and \<open>~\<close> replaces the top by its negation. \<open>evaluate\<close> returns the truth value
  of every formula built as the application builds them, \<open>(~f)\<close> and \<open>(f op g)\<close> over
  letters, under an assignment that covers its variables, and so of both examples of the
  specification.
\<close>

lemma evaluatePostfix_operand_order:
  "pop (stack @ [JBool a, JBool b]) = (JBool b, stack @ [JBool a])
   \<and> evalLoop vv ([WEDGE] # rest) (stack @ [JBool a, JBool b]) =
       evalLoop vv rest (stack @ [JBool (a \<and> b)])
   \<and> evalLoop vv ([VEE] # rest) (stack @ [JBool a, JBool b]) =
       evalLoop vv rest (stack @ [JBool (a \<or> b)])
   \<and> evalLoop vv ([ARROW] # rest) (stack @ [JBool a, JBool b]) =
       evalLoop vv rest (stack @ [JBool (\<not> a \<or> b)])
   \<and> evalLoop vv ([DARROW] # rest) (stack @ [JBool a, JBool b]) =
       evalLoop vv rest (stack @ [JBool (a = b)])
   \<and> evalLoop vv ([TILDE] # rest) (stack @ [JBool a]) =
       evalLoop vv rest (stack @ [JBool (\<not> a)])
   \<and> (covers vv \<rho> f \<longrightarrow> evaluate (render f) vv = JBool (denote \<rho> f))
   \<and> evaluate (ascii ''(p'' @ [WEDGE] @ ascii ''q)'')
        [ascii ''p'' \<mapsto> True, ascii ''q'' \<mapsto> False] = JBool False
   \<and> evaluate (ascii ''(~p)'') [ascii ''p'' \<mapsto> True] = JBool False"
proof -
  have p2: "pop (stack @ [JBool a, JBool b]) = (JBool b, stack @ [JBool a])"
    using pop_snoc [of "stack @ [JBool a]" "JBool b"] by simp
  have e1: "evaluate (ascii ''(p'' @ [WEDGE] @ ascii ''q)'')
              [ascii ''p'' \<mapsto> True, ascii ''q'' \<mapsto> False] = JBool False"
    by code_simp
  have e2: "evaluate (ascii ''(~p)'') [ascii ''p'' \<mapsto> True] = JBool False"
    by code_simp
  show ?thesis
    using evalLoop_glyph [of vv Conj rest stack a b] evalLoop_glyph [of vv Disj rest stack a b]
      evalLoop_glyph [of vv Impl rest stack a b] evalLoop_glyph [of vv Equiv rest stack a b]
      evalLoop_tilde [of vv rest stack "JBool a"] evaluate_render [of vv \<rho> f] p2 e1 e2
    by simp
qed

text \<open>
  C1: the code breaks the claim on formulas with a negation of a negation written without
  parentheses. The loop of the operator branch pops on equal precedence, which is right
  for the binary operators and wrong for the prefix operator: the second \<open>~\<close> sends the
  first to the output before any operand, so \<open>~~p\<close> converts to \<open>~ p ~\<close>. The first \<open>~\<close> then
  negates the \<open>undefined\<close> of an empty stack, and its \<open>true\<close> stays at the bottom of the
  stack: \<open>evaluate("~~p", {p: false})\<close> is \<open>true\<close>, and so is
  \<open>evaluate("p\<and>~~q", {p: false, q: false})\<close>, where the truth tables give \<open>false\<close>. The same
  formula with parentheses, \<open>(~(~p))\<close>, is evaluated to \<open>false\<close>.
\<close>

theorem evaluate_stacked_negation:
  "infixToPostfix (ascii ''~~p'') = [[TILDE], ascii ''p'', [TILDE]]
   \<and> evaluate (ascii ''~~p'') [ascii ''p'' \<mapsto> False] = JBool True
   \<and> evaluate (ascii ''p'' @ [WEDGE] @ ascii ''~~q'')
        [ascii ''p'' \<mapsto> False, ascii ''q'' \<mapsto> False] = JBool True
   \<and> evaluate (ascii ''(~(~p))'') [ascii ''p'' \<mapsto> False] = JBool False
   \<and> denote (\<lambda>c. False) (Neg (Neg (Var 0x70))) = False
   \<and> denote (\<lambda>c. False) (Bin (Var 0x70) Conj (Neg (Neg (Var 0x71)))) = False"
proof -
  have a: "infixToPostfix (ascii ''~~p'') = [[TILDE], ascii ''p'', [TILDE]]"
    by code_simp
  have b: "evaluate (ascii ''~~p'') [ascii ''p'' \<mapsto> False] = JBool True"
    by code_simp
  have c: "evaluate (ascii ''p'' @ [WEDGE] @ ascii ''~~q'')
        [ascii ''p'' \<mapsto> False, ascii ''q'' \<mapsto> False] = JBool True"
    by code_simp
  have d: "evaluate (ascii ''(~(~p))'') [ascii ''p'' \<mapsto> False] = JBool False"
    by code_simp
  from a b c d show ?thesis by simp
qed

subsection \<open>Claim C2\<close>

text \<open>
  C2 as stated fails. An operator that finds too few operands raises nothing: \<open>pop\<close> on
  the empty stack yields \<open>undefined\<close>, and the call returns \<open>undefined\<close>, which is neither
  \<open>false\<close> nor a boolean. Here \<open>evaluate("p\<and>", {p: true})\<close>.
\<close>

theorem evaluate_underflow_counterexample:
  "evaluate (ascii ''p'' @ [WEDGE]) [ascii ''p'' \<mapsto> True] = JUndefined"
  by code_simp

text \<open>
  C2, amended: for every expression string and every assignment, neither the conversion
  nor the postfix evaluation raises a fault, so none reaches the caller and \<open>evaluate\<close>
  returns what \<open>evaluatePostfix\<close> returns, the bottom of the final value stack. A stack
  underflow is not a fault: \<open>pop\<close> of an empty stack yields \<open>undefined\<close>. The value returned
  is a boolean or \<open>undefined\<close>.
\<close>

theorem evaluate_never_faults:
  "(\<exists>v. evaluatePostfix (infixToPostfix expr) vv = Inr v \<and> evaluate expr vv = v)
   \<and> pop [] = (JUndefined, [])
   \<and> (evaluate expr vv = JUndefined \<or> (\<exists>b. evaluate expr vv = JBool b))"
proof -
  obtain v where v: "evaluatePostfix (infixToPostfix expr) vv = Inr v" "notNull v"
    using evaluatePostfix_returns by blast
  then have e: "evaluate expr vv = v" by (simp add: evaluate_def)
  show ?thesis using v e notNull_cases [OF v(2)] by (simp add: pop_def)
qed

theorem evaluate_never_faults_witness:
  "(\<exists>v. evaluatePostfix (infixToPostfix (ascii ''~'')) Map.empty = Inr v
        \<and> evaluate (ascii ''~'') Map.empty = v)
   \<and> pop [] = (JUndefined, [])
   \<and> (evaluate (ascii ''~'') Map.empty = JUndefined
        \<or> (\<exists>b. evaluate (ascii ''~'') Map.empty = JBool b))"
  using evaluate_never_faults [of "ascii ''~''" Map.empty] by simp

subsection \<open>Claim C8\<close>

text \<open>
  C8 as stated fails: the final loop pops a stray \<open>(\<close> to the output like any operator.
  Here \<open>infixToPostfix("(p")\<close>, which is \<open>["p", "("]\<close>.
\<close>

theorem infixToPostfix_keeps_paren_counterexample:
  "[LPAREN] \<in> set (infixToPostfix (ascii ''(p''))"
  by code_simp

lemma count_no_paren: "list_all operandOrOperator out \<Longrightarrow> count_list out [LPAREN] = 0"
  by (induction out) (auto dest: operandOrOperator_not_paren)

text \<open>
  C8, amended: at end of input everything that remains on the operator stack, operators
  and stray \<open>(\<close> alike, is popped to the output, top of the stack first. The postfix
  sequence returned holds one \<open>(\<close> for each \<open>(\<close> left on the stack, and no other;
  \<open>evaluatePostfix\<close> passes over a \<open>(\<close> token without touching its stack.
\<close>

theorem infixToPostfix_flushes_stack:
  "infixToPostfix expr = fst (infixScan expr) @ rev (snd (infixScan expr))
   \<and> count_list (infixToPostfix expr) [LPAREN] = count_list (snd (infixScan expr)) [LPAREN]
   \<and> evalLoop vv ([LPAREN] # rest) stack = evalLoop vv rest stack"
proof -
  obtain out st where s: "infixScan expr = (out, st)" by (cases "infixScan expr")
  have "list_all operandOrOperator out"
    using scanInv_infixScan [of expr] by (simp add: s scanInv_def)
  then have "count_list out [LPAREN] = 0" by (rule count_no_paren)
  then show ?thesis
    by (simp add: infixToPostfix_def s popAll_eq evalLoop_skip_paren)
qed

theorem infixToPostfix_flushes_stack_witness:
  "infixToPostfix (ascii ''((p'') = [ascii ''p'', [LPAREN], [LPAREN]]
   \<and> count_list (infixToPostfix (ascii ''((p'')) [LPAREN] = 2
   \<and> evalLoop Map.empty [[LPAREN]] [JBool True] = Inr [JBool True]"
proof -
  have a: "ascii ''((p'' = [LPAREN, LPAREN, 0x70]" "ascii ''p'' = [0x70]"
    by (simp_all add: ascii_def)
  have sc: "infixScan [LPAREN, LPAREN, 0x70] = ([[0x70]], [[LPAREN], [LPAREN]])"
    by code_simp
  show ?thesis
    using infixToPostfix_flushes_stack [of "ascii ''((p''" Map.empty "[]" "[JBool True]"]
    by (simp add: a sc)
qed

subsection \<open>Claim C9\<close>

text \<open>
  C9 as stated fails in one point. A \<open>)\<close> that finds no \<open>(\<close> on the operator stack is not
  ignored: it pops every operator of the stack to the output. Here \<open>p\<or>q)\<and>r\<close> converts to
  \<open>p q \<or> r \<and>\<close>, whereas \<open>p\<or>q\<and>r\<close> converts to \<open>p q r \<and> \<or>\<close>.
\<close>

theorem unmatched_rparen_counterexample:
  "infixToPostfix (ascii ''p'' @ [VEE] @ ascii ''q)'' @ [WEDGE] @ ascii ''r'')
   \<noteq> infixToPostfix (ascii ''p'' @ [VEE] @ ascii ''q'' @ [WEDGE] @ ascii ''r'')"
  by code_simp

lemma infixStep_rparen_flush:
  assumes "[LPAREN] \<notin> set st"
  shows "infixStep RPAREN (out, st) = (out @ rev st, [])"
proof -
  have "\<forall>t \<in> set (rev st). notParen t" using assms by (auto simp: notParen_def)
  then have tw: "takeWhile notParen (rev st) = rev st" and dw: "dropWhile notParen (rev st) = []"
    by simp_all
  show ?thesis using infixStep_rparen [of out "rev st"] by (simp add: tw dw)
qed

lemma infixToPostfix_tokens: "list_all postfixToken (infixToPostfix expr)"
proof -
  obtain out st where s: "infixScan expr = (out, st)" by (cases "infixScan expr")
  have inv: "list_all operandOrOperator out" "stackOk (rev st)"
    using scanInv_infixScan [of expr] by (simp_all add: s scanInv_def)
  have "list_all postfixToken out"
    using inv(1) by (auto simp: list_all_iff postfixToken_def operandOrOperator_def)
  moreover have "list_all postfixToken (rev st)"
    using stackOk_elem [OF inv(2)] by (auto simp: list_all_iff postfixToken_def)
  ultimately show ?thesis
    by (simp add: infixToPostfix_def s popAll_eq)
qed

text \<open>
  C9, amended: \<open>infixToPostfix\<close> is total and raises no error on any input string. A \<open>)\<close>
  met when no \<open>(\<close> is on the operator stack raises nothing and contributes no token of
  its own, but it empties the operator stack into the output, top first (so it leaves the
  state as it is only when the stack is empty). A space, and any character that is not a
  variable, an operator symbol or a parenthesis, leaves output and stack unchanged. Every
  token of the result is a variable, an operator or \<open>(\<close>.
\<close>

theorem infixToPostfix_permissive:
  "([LPAREN] \<notin> set st \<longrightarrow> infixStep RPAREN (out, st) = (out @ rev st, []))
   \<and> (c \<noteq> SPACE \<and> \<not> isLetter c \<and> c \<noteq> LPAREN \<and> c \<noteq> RPAREN \<and> operators [c] = None
        \<longrightarrow> infixStep c (out, st) = (out, st))
   \<and> infixStep SPACE (out, st) = (out, st)
   \<and> list_all postfixToken (infixToPostfix expr)
   \<and> \<not> postfixToken [RPAREN]"
  by (simp add: infixStep_rparen_flush infixStep_other infixStep_space infixToPostfix_tokens
        postfixToken_def isOperator_def operators_def isLetter_def)

theorem infixToPostfix_permissive_witness:
  "[LPAREN] \<notin> set [[VEE]]
   \<and> infixStep RPAREN ([ascii ''p'', ascii ''q''], [[VEE]]) = ([ascii ''p'', ascii ''q'', [VEE]], [])
   \<and> (0x31 \<noteq> SPACE \<and> \<not> isLetter 0x31 \<and> 0x31 \<noteq> LPAREN \<and> 0x31 \<noteq> RPAREN
        \<and> operators [0x31] = None)
   \<and> infixStep 0x31 ([ascii ''p'', ascii ''q''], [[VEE]]) = ([ascii ''p'', ascii ''q''], [[VEE]])
   \<and> list_all postfixToken (infixToPostfix (ascii ''1+p)''))"
  using infixToPostfix_permissive
    [of "[[VEE]]" "[ascii ''p'', ascii ''q'']" "0x31" "ascii ''1+p)''"]
  by (simp add: isLetter_def operators_def)

subsection \<open>Claim C5\<close>

lemma segment_lower:
  "stackOk (t # ts) \<Longrightarrow> t \<noteq> [LPAREN] \<Longrightarrow> \<forall>u \<in> set (takeWhile notParen ts). prec u < prec t"
proof (induction ts arbitrary: t)
  case Nil
  show ?case by simp
next
  case (Cons u us)
  show ?case
  proof (cases "u = [LPAREN]")
    case True
    then show ?thesis by (simp add: notParen_def)
  next
    case False
    with Cons.prems have lt: "prec u < prec t" and ok: "stackOk (u # us)" by simp_all
    from Cons.IH [OF ok False] lt False show ?thesis
      by (auto simp: notParen_def)
  qed
qed

lemma takeWhile_outranks:
  "stackOk ts \<Longrightarrow>
   takeWhile (outranks p) ts = filter (\<lambda>t. p \<le> prec t) (takeWhile notParen ts)"
proof (induction ts)
  case Nil
  show ?case by simp
next
  case (Cons t ts)
  show ?case
  proof (cases "t = [LPAREN]")
    case True
    then show ?thesis by (simp add: notParen_def outranks_paren)
  next
    case False
    with Cons.prems have op: "isOperator t" and ok: "stackOk ts" by simp_all
    have np: "notParen t" using False by (simp add: notParen_def)
    have iff: "outranks p t = (p \<le> prec t)" using op False by (rule outranks_iff)
    show ?thesis
    proof (cases "p \<le> prec t")
      case True
      with iff np Cons.IH [OF ok] show ?thesis by simp
    next
      case low: False
      have "\<forall>u \<in> set (takeWhile notParen ts). \<not> p \<le> prec u"
        using segment_lower [OF Cons.prems False] low by auto
      then have "filter (\<lambda>t. p \<le> prec t) (takeWhile notParen ts) = []"
        by (simp add: filter_empty_conv)
      with iff low np show ?thesis by simp
    qed
  qed
qed

lemma dropWhile_outranks:
  "stackOk ts \<Longrightarrow>
   dropWhile (outranks p) ts =
     filter (\<lambda>t. prec t < p) (takeWhile notParen ts) @ dropWhile notParen ts"
proof (induction ts)
  case Nil
  show ?case by simp
next
  case (Cons t ts)
  show ?case
  proof (cases "t = [LPAREN]")
    case True
    then show ?thesis by (simp add: notParen_def outranks_paren)
  next
    case False
    with Cons.prems have op: "isOperator t" and ok: "stackOk ts" by simp_all
    have np: "notParen t" using False by (simp add: notParen_def)
    have iff: "outranks p t = (p \<le> prec t)" using op False by (rule outranks_iff)
    show ?thesis
    proof (cases "p \<le> prec t")
      case True
      with iff np Cons.IH [OF ok] show ?thesis by simp
    next
      case low: False
      have "\<forall>u \<in> set (takeWhile notParen ts). prec u < p"
        using segment_lower [OF Cons.prems False] low by auto
      then have "filter (\<lambda>t. prec t < p) (takeWhile notParen ts) = takeWhile notParen ts"
        by (simp add: filter_id_conv)
      with iff low np show ?thesis by simp
    qed
  qed
qed

lemma infixScan_snoc: "infixScan (pre @ [c]) = infixStep c (infixScan pre)"
  by (simp add: infixScan_def)

lemma operator_step_reachable:
  assumes op: "operators [c] = Some info" and scan: "infixScan pre = (out, st)"
  shows "infixScan (pre @ [c]) =
     (out @ rev (filter (\<lambda>t. precedence info \<le> prec t) (aboveParen st)),
      belowParen st @ filter (\<lambda>t. prec t < precedence info) (aboveParen st) @ [[c]])"
proof -
  have ok: "stackOk (rev st)"
    using scanInv_infixScan [of pre] by (simp add: scan scanInv_def)
  have "infixScan (pre @ [c]) = infixStep c (out, rev (rev st))"
    by (simp add: infixScan_snoc scan)
  also have "\<dots> = (out @ takeWhile (outranks (precedence info)) (rev st),
                    rev (dropWhile (outranks (precedence info)) (rev st)) @ [[c]])"
    by (rule infixStep_operator [OF op])
  finally show ?thesis
    by (simp add: takeWhile_outranks [OF ok] dropWhile_outranks [OF ok]
          aboveParen_def belowParen_def rev_filter)
qed

lemma prec_table:
  "prec [TILDE] = 4 \<and> prec [WEDGE] = 3 \<and> prec [VEE] = 2 \<and> prec [ARROW] = 1 \<and> prec [DARROW] = 1"
  by (simp add: prec_def operators_def)

text \<open>
  C5: operators of equal precedence associate to the left. When an operator is scanned,
  after any prefix of any input, the operators on the stack above the topmost \<open>(\<close> whose
  precedence is at least the precedence of the incoming one are popped to the output, top
  first, and those of lower precedence stay, with everything from the topmost \<open>(\<close> down;
  then the incoming operator is pushed. The precedences are 4 for \<open>~\<close>, 3 for \<open>\<and>\<close>, 2 for
  \<open>\<or>\<close>, 1 for \<open>\<rightarrow>\<close> and \<open>\<leftrightarrow>\<close>, so \<open>p\<rightarrow>q\<leftrightarrow>r\<close> applies \<open>\<rightarrow>\<close> first and \<open>p\<leftrightarrow>q\<rightarrow>r\<close> applies \<open>\<leftrightarrow>\<close>
  first.
\<close>

theorem infixToPostfix_left_associative:
  "(operators [c] = Some info \<longrightarrow>
      infixScan (pre @ [c]) =
        (fst (infixScan pre)
           @ rev (filter (\<lambda>t. precedence info \<le> prec t) (aboveParen (snd (infixScan pre)))),
         belowParen (snd (infixScan pre))
           @ filter (\<lambda>t. prec t < precedence info) (aboveParen (snd (infixScan pre)))
           @ [[c]]))
   \<and> prec [TILDE] = 4 \<and> prec [WEDGE] = 3 \<and> prec [VEE] = 2 \<and> prec [ARROW] = 1
   \<and> prec [DARROW] = 1
   \<and> infixToPostfix (ascii ''p'' @ [ARROW] @ ascii ''q'' @ [DARROW] @ ascii ''r'') =
       [ascii ''p'', ascii ''q'', [ARROW], ascii ''r'', [DARROW]]
   \<and> infixToPostfix (ascii ''p'' @ [DARROW] @ ascii ''q'' @ [ARROW] @ ascii ''r'') =
       [ascii ''p'', ascii ''q'', [DARROW], ascii ''r'', [ARROW]]"
proof -
  have e1: "infixToPostfix (ascii ''p'' @ [ARROW] @ ascii ''q'' @ [DARROW] @ ascii ''r'') =
       [ascii ''p'', ascii ''q'', [ARROW], ascii ''r'', [DARROW]]"
    by code_simp
  have e2: "infixToPostfix (ascii ''p'' @ [DARROW] @ ascii ''q'' @ [ARROW] @ ascii ''r'') =
       [ascii ''p'', ascii ''q'', [DARROW], ascii ''r'', [ARROW]]"
    by code_simp
  have step: "operators [c] = Some info \<longrightarrow>
      infixScan (pre @ [c]) =
        (fst (infixScan pre)
           @ rev (filter (\<lambda>t. precedence info \<le> prec t) (aboveParen (snd (infixScan pre)))),
         belowParen (snd (infixScan pre))
           @ filter (\<lambda>t. prec t < precedence info) (aboveParen (snd (infixScan pre)))
           @ [[c]])"
    using operator_step_reachable [of c info pre "fst (infixScan pre)" "snd (infixScan pre)"]
    by simp
  show ?thesis
    using step prec_table e1 e2 by blast
qed

theorem infixToPostfix_left_associative_witness:
  "operators [DARROW] = Some \<lparr>precedence = 1, unary = False, binary = True\<rparr>
   \<and> infixScan [LPAREN, 0x70, ARROW, 0x71] = ([[0x70], [0x71]], [[LPAREN], [ARROW]])
   \<and> infixScan ([LPAREN, 0x70, ARROW, 0x71] @ [DARROW]) =
       ([[0x70], [0x71], [ARROW]], [[LPAREN], [DARROW]])"
proof -
  have op: "operators [DARROW] = Some \<lparr>precedence = 1, unary = False, binary = True\<rparr>"
    by (simp add: operators_def)
  have sc: "infixScan [LPAREN, 0x70, ARROW, 0x71] = ([[0x70], [0x71]], [[LPAREN], [ARROW]])"
    by code_simp
  have ab: "aboveParen [[LPAREN], [ARROW]] = [[ARROW]]"
    and be: "belowParen [[LPAREN], [ARROW]] = [[LPAREN]]"
    and pr: "prec [ARROW] = 1"
    by (simp_all add: aboveParen_def belowParen_def notParen_def prec_def operators_def)
  show ?thesis
    using infixToPostfix_left_associative
      [of DARROW "\<lparr>precedence = 1, unary = False, binary = True\<rparr>"
          "[LPAREN, 0x70, ARROW, 0x71]"] op
    by (simp add: sc ab be pr)
qed

section \<open>Properties of the truth-table generator\<close>

subsection \<open>Claim C4\<close>

lemma isVariable_iff: "isVariable s = (\<exists>c. s = [c] \<and> isLetter c)"
  by (cases s rule: isVariable.cases) auto

lemma surrogate_not_letter: "isLeadSurrogate c \<Longrightarrow> \<not> isLetter c"
  by (auto simp: isLeadSurrogate_def isLetter_def word_le_nat_alt)

lemma trail_not_letter: "isTrailSurrogate c \<Longrightarrow> \<not> isLetter c"
  by (auto simp: isTrailSurrogate_def isLetter_def word_le_nat_alt)

lemma filter_stringIterator:
  "filter isVariable (stringIterator expr) = map (\<lambda>c. [c]) (filter isLetter expr)"
  by (induction expr rule: stringIterator.induct)
     (auto dest: surrogate_not_letter trail_not_letter)

lemma set_fold_collect:
  "set (fold collect xs acc) = set acc \<union> set (filter isVariable xs)"
  by (induction xs arbitrary: acc) (auto simp: collect_def setAdd_def push_def)

lemma distinct_fold_collect:
  "distinct acc \<Longrightarrow> distinct (fold collect xs acc)"
  by (induction xs arbitrary: acc) (auto simp: collect_def setAdd_def push_def)

lemma singleton_le: "([a] \<le> [b]) = (a \<le> (b::cu))"
  by auto

lemma sorted_singletons: "sorted xs \<Longrightarrow> sorted (map (\<lambda>c::cu. [c]) xs)"
  by (induction xs) (auto simp: singleton_le)

lemma getVariables_eq:
  "getVariables expr = map (\<lambda>c. [c]) (sorted_list_of_set {c \<in> set expr. isLetter c})"
proof -
  let ?S = "{c \<in> set expr. isLetter c}"
  let ?L = "fold collect (stringIterator expr) []"
  have fin: "finite ?S" by simp
  have g: "getVariables expr = sort ?L"
    unfolding getVariables_def collect_def [abs_def] ..
  have set: "set ?L = (\<lambda>c. [c]) ` ?S"
    by (auto simp: set_fold_collect filter_stringIterator)
  have dist: "distinct ?L" by (simp add: distinct_fold_collect)
  have "sorted (sort ?L)" "distinct (sort ?L)" "set (sort ?L) = (\<lambda>c. [c]) ` ?S"
    using dist set by simp_all
  moreover have "sorted (map (\<lambda>c. [c]) (sorted_list_of_set ?S))"
    by (rule sorted_singletons) simp
  moreover have "distinct (map (\<lambda>c. [c]) (sorted_list_of_set ?S))"
    by (simp add: distinct_map inj_on_def)
  moreover have "set (map (\<lambda>c. [c]) (sorted_list_of_set ?S)) = (\<lambda>c. [c]) ` ?S"
    using fin by simp
  ultimately have "sort ?L = map (\<lambda>c. [c]) (sorted_list_of_set ?S)"
    by (intro sorted_distinct_set_unique) simp_all
  with g show ?thesis by simp
qed

lemma coreIsVariable_eq: "coreIsVariable char = isVariable char"
  by (cases char rule: isVariable.cases)
     (auto simp: coreIsVariable_def coreOperators_def isLetter_def)

lemma getVariablesFromExpression_eq: "getVariablesFromExpression expr = getVariables expr"
  by (simp add: getVariablesFromExpression_def getVariables_def coreIsVariable_eq)

lemma concat_singletons: "concat (map (\<lambda>c. [c]) xs) = xs"
  by (induction xs) simp_all

lemma getVariables_idem: "getVariables (concat (getVariables expr)) = getVariables expr"
proof -
  let ?S = "{c \<in> set expr. isLetter c}"
  have "concat (getVariables expr) = sorted_list_of_set ?S"
    by (simp add: getVariables_eq concat_singletons)
  moreover have "{c \<in> set (sorted_list_of_set ?S). isLetter c} = ?S"
    by auto
  ultimately show ?thesis by (simp add: getVariables_eq [of "sorted_list_of_set ?S"] getVariables_eq [of expr])
qed

text \<open>
  C4: for every expression string, \<open>getVariables\<close> returns the single-letter variables that
  occur in it, each once, in ascending order of their code units; \<open>LogicCore\<close>'s
  \<open>getVariablesFromExpression\<close> returns the same list. The result depends on the
  expression only, and extracting again from the letters returned gives the same list.
\<close>

theorem getVariables_sorted_distinct:
  "getVariables expr = map (\<lambda>c. [c]) (sorted_list_of_set {c \<in> set expr. isLetter c})
   \<and> distinct (getVariables expr)
   \<and> sorted (getVariables expr)
   \<and> sorted (concat (getVariables expr))
   \<and> getVariablesFromExpression expr = getVariables expr
   \<and> getVariables (concat (getVariables expr)) = getVariables expr"
proof -
  let ?S = "{c \<in> set expr. isLetter c}"
  have d: "distinct (getVariables expr)"
    by (simp add: getVariables_eq distinct_map inj_on_def)
  have s: "sorted (getVariables expr)"
    unfolding getVariables_eq by (rule sorted_singletons) simp
  have c: "sorted (concat (getVariables expr))"
    by (simp add: getVariables_eq concat_singletons)
  show ?thesis
    using getVariables_eq [of expr] d s c getVariablesFromExpression_eq [of expr]
      getVariables_idem [of expr]
    by blast
qed

theorem getVariables_sorted_distinct_witness:
  "getVariables (ascii ''(q'' @ [ARROW] @ ascii ''p)q'') = [ascii ''p'', ascii ''q'']
   \<and> getVariablesFromExpression (ascii ''(q'' @ [ARROW] @ ascii ''p)q'') = [ascii ''p'', ascii ''q'']
   \<and> getVariables (ascii ''pq'') = [ascii ''p'', ascii ''q'']"
proof -
  have g: "getVariables (ascii ''(q'' @ [ARROW] @ ascii ''p)q'') = [ascii ''p'', ascii ''q'']"
    by code_simp
  have c: "concat [ascii ''p'', ascii ''q''] = ascii ''pq''"
    by (simp add: ascii_def)
  show ?thesis
    using getVariables_sorted_distinct [of "ascii ''(q'' @ [ARROW] @ ascii ''p)q''"]
    unfolding g c by simp
qed

subsection \<open>Claim C3\<close>

lemma bitAt_bit: "j < 32 \<Longrightarrow> bitAt i j = bit i j"
proof -
  assume j: "j < 32"
  let ?w = "signed_drop_bit j (word_of_nat i :: 32 word)"
  have "(?w AND 1 \<noteq> 0) = bit ?w 0"
    by (simp add: and_one_eq mod_2_eq_odd bit_0)
  also have "\<dots> = bit (word_of_nat i :: 32 word) j"
    using j by (simp add: bit_signed_drop_bit_iff)
  also have "\<dots> = bit i j"
    using j by (simp add: bit_of_nat_iff)
  finally show ?thesis using j by (simp add: bitAt_def)
qed

lemma combinationLoop_eq:
  "combinationLoop i k acc = acc @ map (bitAt i) (rev [0..<k])"
  by (induction k arbitrary: acc) (simp_all add: push_def)

text \<open>The outer loop returns the whole list when it fits an array, and throws otherwise.\<close>

lemma combinationsLoop_eq:
  "length acc \<le> maxArrayLength \<Longrightarrow>
   combinationsLoop n tot i acc =
     (if length acc + (tot - i) \<le> maxArrayLength
      then Inr (acc @ map (\<lambda>k. combinationLoop k n []) [i..<tot])
      else Inl RangeError)"
proof (induction n tot i acc rule: combinationsLoop.induct)
  case (1 n tot i acc)
  show ?case
  proof (cases "i < tot")
    case more: True
    show ?thesis
    proof (cases "length acc < maxArrayLength")
      case room: True
      then have len: "length (push acc (combinationLoop i n [])) \<le> maxArrayLength"
        by (simp add: push_def)
      have "combinationsLoop n tot i acc =
            combinationsLoop n tot (Suc i) (push acc (combinationLoop i n []))"
        using more room by (subst combinationsLoop.simps) simp
      also have "\<dots> =
            (if length (push acc (combinationLoop i n [])) + (tot - Suc i) \<le> maxArrayLength
             then Inr (push acc (combinationLoop i n [])
                       @ map (\<lambda>k. combinationLoop k n []) [Suc i..<tot])
             else Inl RangeError)"
        by (rule "1.IH" [OF more room len])
      also have "\<dots> =
            (if length acc + (tot - i) \<le> maxArrayLength
             then Inr (acc @ map (\<lambda>k. combinationLoop k n []) [i..<tot])
             else Inl RangeError)"
      proof -
        have "length (push acc (combinationLoop i n [])) + (tot - Suc i) = length acc + (tot - i)"
          using more by (simp add: push_def)
        then show ?thesis using more by (simp add: push_def upt_conv_Cons)
      qed
      finally show ?thesis .
    next
      case full: False
      then have "combinationsLoop n tot i acc = Inl RangeError"
        using more by (subst combinationsLoop.simps) simp
      moreover have "\<not> length acc + (tot - i) \<le> maxArrayLength"
        using more full by simp
      ultimately show ?thesis by simp
    qed
  next
    case stop: False
    then have "combinationsLoop n tot i acc = Inr acc"
      by (subst combinationsLoop.simps) simp
    with stop "1.prems" show ?thesis by simp
  qed
qed

lemma power_fits_array: "((2::nat) ^ n \<le> maxArrayLength) = (n < 32)"
proof
  assume fit: "(2::nat) ^ n \<le> maxArrayLength"
  show "n < 32"
  proof (rule ccontr)
    assume "\<not> n < 32"
    then have "(2::nat) ^ 32 \<le> 2 ^ n" by (intro power_increasing) simp_all
    with fit show False by (simp add: maxArrayLength_def)
  qed
next
  assume "n < 32"
  then have "(2::nat) ^ n < 2 ^ 32" by (intro power_strict_increasing) simp_all
  then show "(2::nat) ^ n \<le> maxArrayLength" by (simp add: maxArrayLength_def)
qed

lemma generateCombinations_eq:
  "generateCombinations n = (if n < 32 then Inr (tuples n) else Inl RangeError)"
proof -
  have "generateCombinations n =
        (if 2 ^ n \<le> maxArrayLength
         then Inr (map (\<lambda>k. combinationLoop k n []) [0..<2 ^ n]) else Inl RangeError)"
    unfolding generateCombinations_def by (subst combinationsLoop_eq) simp_all
  then show ?thesis
    by (simp add: power_fits_array tuples_def combinationLoop_eq)
qed

lemma length_tuples: "length (tuples n) = 2 ^ n"
  by (simp add: tuples_def)

lemma nth_tuples: "i < 2 ^ n \<Longrightarrow> tuples n ! i = map (bitAt i) (rev [0..<n])"
  by (simp add: tuples_def)

lemma tuple_bigEndian:
  assumes "n \<le> 32"
  shows "map (bitAt i) (rev [0..<n]) = bigEndian n i"
proof (rule nth_equalityI)
  show "length (map (bitAt i) (rev [0..<n])) = length (bigEndian n i)"
    by (simp add: bigEndian_def)
next
  fix k assume "k < length (map (bitAt i) (rev [0..<n]))"
  then have k: "k < n" by simp
  then have "rev [0..<n] ! k = n - 1 - k" by (simp add: rev_nth)
  moreover have "n - 1 - k < 32" using k assms by simp
  ultimately show "map (bitAt i) (rev [0..<n]) ! k = bigEndian n i ! k"
    using k by (simp add: bigEndian_def bitAt_bit)
qed

lemma bigEndian_Suc: "bigEndian (Suc n) i = bigEndian n (i div 2) @ [odd i]"
proof -
  have "map (\<lambda>k. bit i (n - k)) [0..<n] = map (\<lambda>k. bit (i div 2) (n - 1 - k)) [0..<n]"
  proof (rule map_cong [OF refl])
    fix k assume "k \<in> set [0..<n]"
    then have "n - k = Suc (n - 1 - k)" by auto
    then show "bit i (n - k) = bit (i div 2) (n - 1 - k)" by (simp add: bit_Suc)
  qed
  then show ?thesis by (simp add: bigEndian_def bit_0)
qed

lemma bigEndianValue_snoc: "bigEndianValue (bs @ [b]) = 2 * bigEndianValue bs + of_bool b"
  by (simp add: bigEndianValue_def)

lemma bigEndianValue_bigEndian: "i < 2 ^ n \<Longrightarrow> bigEndianValue (bigEndian n i) = i"
proof (induction n arbitrary: i)
  case 0
  then show ?case by (simp add: bigEndian_def bigEndianValue_def)
next
  case (Suc n)
  then have "i div 2 < 2 ^ n" by auto
  then have "bigEndianValue (bigEndian n (i div 2)) = i div 2" by (rule Suc.IH)
  then show ?case by (simp add: bigEndian_Suc bigEndianValue_snoc)
qed

lemma distinct_tuples:
  assumes "n \<le> 32"
  shows "distinct (tuples n)"
proof -
  have "inj_on (\<lambda>i. map (bitAt i) (rev [0..<n])) (set [0..<2 ^ n])"
  proof (rule inj_onI)
    fix i j assume i: "i \<in> set [0..<2 ^ n]" and j: "j \<in> set [0..<2 ^ n]"
      and eq: "map (bitAt i) (rev [0..<n]) = map (bitAt j) (rev [0..<n])"
    then have "bigEndianValue (bigEndian n i) = bigEndianValue (bigEndian n j)"
      by (simp add: tuple_bigEndian [OF assms])
    with i j show "i = j" by (simp add: bigEndianValue_bigEndian)
  qed
  then show ?thesis by (simp add: tuples_def distinct_map)
qed

text \<open>
  C3 as stated fails from 32 variables on: the list of \<open>2^32\<close> combinations does not fit
  an array, whose length is at most \<open>2^32 - 1\<close>, so the \<open>push\<close> of the last combination
  throws and \<open>generateCombinations(32)\<close> produces no tuples.
\<close>

theorem generateCombinations_counterexample:
  "generateCombinations 32 = Inl RangeError"
  by (simp add: generateCombinations_eq)

lemma generateTable_cases:
  "generateTable g expr =
     (if trim expr = [] then (Inl EmptyExpression, g)
      else if getVariables expr = [] then (Inl NoVariablesFound, g)
      else if length (getVariables expr) < 32
      then (Inr (tableOf expr), g\<lparr>currentTable := Some (tableOf expr)\<rparr>)
      else (Inl RangeError, g))"
proof -
  have "trim expr \<noteq> [] \<Longrightarrow> expr \<noteq> []" by (auto simp: trim_def)
  then show ?thesis
    by (auto simp: generateTable_def generateCombinations_eq tableOf_def Let_def)
qed

lemma rows_of_table:
  assumes "generateTable g expr = (Inr t, g')"
  shows "t = tableOf expr \<and> g' = g\<lparr>currentTable := Some t\<rparr>
         \<and> length (getVariables expr) < 32"
  using assms unfolding generateTable_cases by (auto split: if_splits)

lemma map_variables_makeRow: "map (variables \<circ> makeRow e vs) ics = map snd ics"
  by (induction ics) (auto simp: makeRow_def)

lemma map_index_makeRow: "map (index \<circ> makeRow e vs) ics = map fst ics"
  by (induction ics) (auto simp: makeRow_def)

lemma tableOf_rows:
  "length (rows (tableOf expr)) = 2 ^ length (getVariables expr)"
  "map variables (rows (tableOf expr)) = tuples (length (getVariables expr))"
  "map index (rows (tableOf expr)) = [0..<2 ^ length (getVariables expr)]"
  "tableVariables (tableOf expr) = getVariables expr"
  by (simp_all add: tableOf_def map_variables_makeRow map_index_makeRow length_tuples)

text \<open>
  C3, amended: for every \<open>n\<close> from 0 to 31, \<open>generateCombinations(n)\<close> produces exactly \<open>2^n\<close>
  tuples of length \<open>n\<close>, indexed from 0 and all distinct, where tuple \<open>i\<close> is the big-endian
  \<open>n\<close>-bit representation of \<open>i\<close> (position 0 the most significant bit), so the tuples are
  strictly increasing as big-endian numbers; from \<open>n = 32\<close> on the call throws a
  \<open>RangeError\<close>. Every table that \<open>generateTable\<close> returns, for a formula with \<open>n\<close> distinct
  variables, where \<open>n\<close> is then at most 31, has exactly \<open>2^n\<close> rows, one per combination in
  that order, row \<open>i\<close> carrying index \<open>i\<close>.
\<close>

theorem generateCombinations_order:
  "(n \<le> 31 \<longrightarrow>
      (\<exists>cs. generateCombinations n = Inr cs \<and> length cs = 2 ^ n \<and> distinct cs
         \<and> (i < 2 ^ n \<longrightarrow>
              length (cs ! i) = n \<and> cs ! i = bigEndian n i \<and> bigEndianValue (cs ! i) = i)
         \<and> (i < j \<and> j < 2 ^ n \<longrightarrow> bigEndianValue (cs ! i) < bigEndianValue (cs ! j))))
   \<and> (32 \<le> n \<longrightarrow> generateCombinations n = Inl RangeError)
   \<and> (generateTable g expr = (Inr t, g') \<longrightarrow>
        tableVariables t = getVariables expr
        \<and> length (tableVariables t) \<le> 31
        \<and> length (rows t) = 2 ^ length (tableVariables t)
        \<and> generateCombinations (length (tableVariables t)) = Inr (map variables (rows t))
        \<and> map index (rows t) = [0..<2 ^ length (tableVariables t)])"
proof -
  have a: "n \<le> 31 \<longrightarrow>
      (\<exists>cs. generateCombinations n = Inr cs \<and> length cs = 2 ^ n \<and> distinct cs
         \<and> (i < 2 ^ n \<longrightarrow>
              length (cs ! i) = n \<and> cs ! i = bigEndian n i \<and> bigEndianValue (cs ! i) = i)
         \<and> (i < j \<and> j < 2 ^ n \<longrightarrow> bigEndianValue (cs ! i) < bigEndianValue (cs ! j)))"
  proof
    assume n: "n \<le> 31"
    then have n32: "n \<le> 32" by simp
    have g: "generateCombinations n = Inr (tuples n)"
      using n by (simp add: generateCombinations_eq)
    have v: "bigEndianValue (tuples n ! k) = k" if "k < 2 ^ n" for k
      using that by (simp add: nth_tuples tuple_bigEndian [OF n32] bigEndianValue_bigEndian)
    have t: "i < 2 ^ n \<longrightarrow> length (tuples n ! i) = n \<and> tuples n ! i = bigEndian n i
               \<and> bigEndianValue (tuples n ! i) = i"
      using v [of i] by (simp add: nth_tuples tuple_bigEndian [OF n32] bigEndian_def)
    have o: "i < j \<and> j < 2 ^ n \<longrightarrow>
               bigEndianValue (tuples n ! i) < bigEndianValue (tuples n ! j)"
      using v [of i] v [of j] by auto
    from g length_tuples [of n] distinct_tuples [OF n32] t o
    show "\<exists>cs. generateCombinations n = Inr cs \<and> length cs = 2 ^ n \<and> distinct cs
         \<and> (i < 2 ^ n \<longrightarrow>
              length (cs ! i) = n \<and> cs ! i = bigEndian n i \<and> bigEndianValue (cs ! i) = i)
         \<and> (i < j \<and> j < 2 ^ n \<longrightarrow> bigEndianValue (cs ! i) < bigEndianValue (cs ! j))"
      by blast
  qed
  have b: "32 \<le> n \<longrightarrow> generateCombinations n = Inl RangeError"
    by (simp add: generateCombinations_eq)
  have c: "generateTable g expr = (Inr t, g') \<longrightarrow>
        tableVariables t = getVariables expr
        \<and> length (tableVariables t) \<le> 31
        \<and> length (rows t) = 2 ^ length (tableVariables t)
        \<and> generateCombinations (length (tableVariables t)) = Inr (map variables (rows t))
        \<and> map index (rows t) = [0..<2 ^ length (tableVariables t)]"
  proof
    assume "generateTable g expr = (Inr t, g')"
    then have t: "t = tableOf expr" and n: "length (getVariables expr) < 32"
      using rows_of_table by blast+
    show "tableVariables t = getVariables expr
        \<and> length (tableVariables t) \<le> 31
        \<and> length (rows t) = 2 ^ length (tableVariables t)
        \<and> generateCombinations (length (tableVariables t)) = Inr (map variables (rows t))
        \<and> map index (rows t) = [0..<2 ^ length (tableVariables t)]"
      using n by (simp add: t tableOf_rows generateCombinations_eq)
  qed
  from a b c show ?thesis by blast
qed

lemma generateTable_sample:
  "generateTable g [LPAREN, 0x70, WEDGE, 0x71, RPAREN] =
     (Inr sampleTable, g\<lparr>currentTable := Some sampleTable\<rparr>)"
proof -
  let ?e = "[LPAREN, 0x70, WEDGE, 0x71, RPAREN]"
  have f: "tableOf ?e = sampleTable" by code_simp
  have t: "trim ?e \<noteq> []" by code_simp
  have v: "getVariables ?e = [[0x70], [0x71]]" by code_simp
  show ?thesis
    unfolding generateTable_cases by (simp add: f t v)
qed

theorem generateCombinations_order_witness:
  "(2::nat) \<le> 31 \<and> (2::nat) < 3 \<and> (3::nat) < 2 ^ 2
   \<and> (\<exists>cs. generateCombinations 2 = Inr cs \<and> length cs = 2 ^ 2 \<and> distinct cs
         \<and> cs ! 2 = [True, False] \<and> bigEndianValue (cs ! 2) = 2
         \<and> bigEndianValue (cs ! 2) < bigEndianValue (cs ! 3))
   \<and> (32::nat) \<le> 40 \<and> generateCombinations 40 = Inl RangeError
   \<and> generateTable \<lparr>currentTable = None, userAnswers = Map.empty\<rparr>
        [LPAREN, 0x70, WEDGE, 0x71, RPAREN]
      = (Inr sampleTable, \<lparr>currentTable = Some sampleTable, userAnswers = Map.empty\<rparr>)
   \<and> length (rows sampleTable) = 2 ^ length (tableVariables sampleTable)
   \<and> generateCombinations 2 = Inr (map variables (rows sampleTable))"
proof -
  let ?g = "\<lparr>currentTable = None, userAnswers = Map.empty\<rparr>"
  let ?g' = "\<lparr>currentTable = Some sampleTable, userAnswers = Map.empty\<rparr>"
  let ?e = "[LPAREN, 0x70, WEDGE, 0x71, RPAREN]"
  note th = generateCombinations_order [of 2 2 3 ?g ?e sampleTable ?g']
  note th40 = generateCombinations_order [of 40 2 3 ?g ?e sampleTable ?g']
  have gen: "generateTable ?g ?e = (Inr sampleTable, ?g')"
    using generateTable_sample [of ?g] by simp
  have b: "bigEndian 2 2 = [True, False]"
    by (simp add: bigEndian_def upt_conv_Cons bit_0 bit_Suc)
  have l: "length (tableVariables sampleTable) = 2"
    by (simp add: sampleTable_def)
  have h: "(2::nat) \<le> 31" "(2::nat) < 3" "(3::nat) < 2 ^ 2" "(2::nat) < 2 ^ 2" "(32::nat) \<le> 40"
    by simp_all
  from th h obtain cs where cs: "generateCombinations 2 = Inr cs" "length cs = 2 ^ 2"
      "distinct cs" "cs ! 2 = bigEndian 2 2" "bigEndianValue (cs ! 2) = 2"
      "bigEndianValue (cs ! 2) < bigEndianValue (cs ! 3)"
    by blast
  from cs(4) have t: "cs ! 2 = [True, False]" by (simp only: b)
  from th40 h have r: "generateCombinations 40 = Inl RangeError" by blast
  from th gen have "length (rows sampleTable) = 2 ^ length (tableVariables sampleTable)"
    and "generateCombinations (length (tableVariables sampleTable))
           = Inr (map variables (rows sampleTable))"
    by blast+
  then have rl: "length (rows sampleTable) = 2 ^ length (tableVariables sampleTable)"
    and m: "generateCombinations 2 = Inr (map variables (rows sampleTable))"
    by (simp_all only: l)
  from h cs(1,2,3) t cs(5,6) r gen rl m show ?thesis by blast
qed

subsection \<open>Claim C6\<close>

lemma dropWhile_all: "(dropWhile P xs = []) = list_all P xs"
  by (induction xs) simp_all

lemma trim_empty_iff: "(trim s = []) = list_all isWhiteSpace s"
proof
  assume "trim s = []"
  then have "\<forall>x \<in> set (dropWhile isWhiteSpace s). isWhiteSpace x"
    by (simp add: trim_def)
  then have "dropWhile isWhiteSpace s = []"
    using hd_dropWhile [of isWhiteSpace s] by (cases "dropWhile isWhiteSpace s") auto
  then show "list_all isWhiteSpace s" by (simp only: dropWhile_all)
next
  assume "list_all isWhiteSpace s"
  then have "dropWhile isWhiteSpace s = []" by (simp only: dropWhile_all)
  then show "trim s = []" by (simp add: trim_def del: dropWhile_eq_Nil_conv)
qed

lemma getVariables_empty_iff: "(getVariables expr = []) = (\<not> (\<exists>c \<in> set expr. isLetter c))"
proof -
  have "finite {c \<in> set expr. isLetter c}" by simp
  then have "(sorted_list_of_set {c \<in> set expr. isLetter c} = []) = ({c \<in> set expr. isLetter c} = {})"
    by (rule sorted_list_of_set_eq_Nil_iff)
  then show ?thesis by (auto simp: getVariables_eq)
qed

text \<open>
  C6: \<open>generateTable\<close> fails with \<open>EmptyExpression\<close> exactly when the trimmed expression is
  empty (the expression is white space only), and otherwise fails with \<open>NoVariablesFound\<close>
  exactly when the expression contains no letter. In particular \<open>generateTable("")\<close> fails
  with \<open>EmptyExpression\<close> and \<open>generateTable("1+1")\<close> with \<open>NoVariablesFound\<close>. A failure
  returns no table and leaves the generator, with its current table, as it was. Of the
  remaining expressions, those with fewer than 32 distinct variables yield a table, and
  those with 32 or more fail with the \<open>RangeError\<close> of \<open>generateCombinations\<close>.
\<close>

theorem generateTable_errors:
  "((fst (generateTable g expr) = Inl EmptyExpression) = (trim expr = []))
   \<and> ((trim expr = []) = list_all isWhiteSpace expr)
   \<and> ((fst (generateTable g expr) = Inl NoVariablesFound) =
        (trim expr \<noteq> [] \<and> \<not> (\<exists>c \<in> set expr. isLetter c)))
   \<and> ((\<exists>t. fst (generateTable g expr) = Inr t) =
        (trim expr \<noteq> [] \<and> (\<exists>c \<in> set expr. isLetter c)
         \<and> length (getVariables expr) < 32))
   \<and> ((fst (generateTable g expr) = Inl RangeError) =
        (trim expr \<noteq> [] \<and> (\<exists>c \<in> set expr. isLetter c)
         \<and> 32 \<le> length (getVariables expr)))
   \<and> ((\<exists>err. fst (generateTable g expr) = Inl err) \<longrightarrow> snd (generateTable g expr) = g)
   \<and> fst (generateTable g []) = Inl EmptyExpression
   \<and> fst (generateTable g (ascii ''1+1'')) = Inl NoVariablesFound"
proof -
  have a: "(fst (generateTable g expr) = Inl EmptyExpression) = (trim expr = [])"
    by (simp add: generateTable_cases)
  have b: "(fst (generateTable g expr) = Inl NoVariablesFound) =
        (trim expr \<noteq> [] \<and> \<not> (\<exists>c \<in> set expr. isLetter c))"
    using getVariables_empty_iff [of expr] by (simp add: generateTable_cases)
  have c: "(\<exists>t. fst (generateTable g expr) = Inr t) =
        (trim expr \<noteq> [] \<and> (\<exists>c \<in> set expr. isLetter c)
         \<and> length (getVariables expr) < 32)"
    using getVariables_empty_iff [of expr] by (simp add: generateTable_cases)
  have r: "(fst (generateTable g expr) = Inl RangeError) =
        (trim expr \<noteq> [] \<and> (\<exists>c \<in> set expr. isLetter c)
         \<and> 32 \<le> length (getVariables expr))"
    using getVariables_empty_iff [of expr] by (auto simp: generateTable_cases)
  have d: "(\<exists>err. fst (generateTable g expr) = Inl err) \<longrightarrow> snd (generateTable g expr) = g"
    by (simp add: generateTable_cases)
  have e: "fst (generateTable g []) = Inl EmptyExpression"
    by (simp add: generateTable_def)
  have t: "trim (ascii ''1+1'') \<noteq> []" by code_simp
  have v: "getVariables (ascii ''1+1'') = []" by code_simp
  have f: "fst (generateTable g (ascii ''1+1'')) = Inl NoVariablesFound"
    using t v by (simp add: generateTable_cases)
  show ?thesis using a b c r d e f trim_empty_iff [of expr] by blast
qed

theorem generateTable_errors_witness:
  "trim (ascii '' '') = []
   \<and> fst (generateTable \<lparr>currentTable = Some sampleTable, userAnswers = Map.empty\<rparr> (ascii '' ''))
       = Inl EmptyExpression
   \<and> snd (generateTable \<lparr>currentTable = Some sampleTable, userAnswers = Map.empty\<rparr> (ascii '' ''))
       = \<lparr>currentTable = Some sampleTable, userAnswers = Map.empty\<rparr>"
proof -
  have t: "trim (ascii '' '') = []" by code_simp
  note th = generateTable_errors
      [of "\<lparr>currentTable = Some sampleTable, userAnswers = Map.empty\<rparr>" "ascii '' ''"]
  from th t have e: "fst (generateTable \<lparr>currentTable = Some sampleTable, userAnswers = Map.empty\<rparr>
      (ascii '' '')) = Inl EmptyExpression" by blast
  with th have "snd (generateTable \<lparr>currentTable = Some sampleTable, userAnswers = Map.empty\<rparr>
      (ascii '' '')) = \<lparr>currentTable = Some sampleTable, userAnswers = Map.empty\<rparr>" by blast
  with t e show ?thesis by blast
qed

subsection \<open>Claims C7 and C10\<close>

text \<open>The rounding to a double: exact on a mantissa below \<open>2^53\<close>, and otherwise off by at
  most the fraction \<open>2^-53\<close> of the value.\<close>

lemma two_powi_pos: "0 < (2::rat) powi e"
  by simp

lemma two_powi_add: "(2::rat) powi (a + b) = 2 powi a * 2 powi b"
  by (simp add: power_int_add)

lemma two_powi_nat: "0 \<le> e \<Longrightarrow> (2::rat) powi e = 2 ^ nat e"
  by (simp add: power_int_def)

lemma bitlen_powi:
  assumes "0 < p"
  shows "(2::rat) powi (bitlen p - 1) \<le> of_int p" and "of_int p < (2::rat) powi bitlen p"
proof -
  from assms have b: "1 \<le> bitlen p"
    using bitlen_eq_zero_iff [of p] bitlen_nonneg [of p] by linarith
  have "(2::int) ^ nat (bitlen p - 1) \<le> p" "p < (2::int) ^ nat (bitlen p)"
    using bitlen_bounds [OF assms] by simp_all
  then have "(of_int (2 ^ nat (bitlen p - 1)) :: rat) \<le> of_int p"
    and "(of_int p :: rat) < of_int (2 ^ nat (bitlen p))"
    by (simp_all only: of_int_le_iff of_int_less_iff)
  then show "(2::rat) powi (bitlen p - 1) \<le> of_int p" and "of_int p < (2::rat) powi bitlen p"
    using b by (simp_all add: two_powi_nat)
qed

lemma exponentOf_bounds:
  assumes "0 < x"
  shows "2 ^ 52 \<le> x / 2 powi exponentOf x" and "x / 2 powi exponentOf x < 2 ^ 53"
proof -
  obtain p q where pq: "quotient_of x = (p, q)" by (cases "quotient_of x")
  then have q: "0 < q" and x: "x = of_int p / of_int q"
    using quotient_of_denom_pos [of x p q] quotient_of_div [of x p q] by simp_all
  have p: "0 < p"
    using assms q by (simp add: x zero_less_divide_iff)
  define d where "d = bitlen p - bitlen q"
  define A where "A = (2::rat) powi (d - 53)"
  have A: "0 < A" by (simp add: A_def)
  have lo: "(2::rat) powi (bitlen p - 1) \<le> of_int p" and hi: "of_int p < (2::rat) powi bitlen p"
    using bitlen_powi [OF p] by simp_all
  have qlo: "(2::rat) powi (bitlen q - 1) \<le> of_int q" and qhi: "of_int q < (2::rat) powi bitlen q"
    using bitlen_powi [OF q] by simp_all
  have e1: "(2::rat) powi (bitlen p - 1) = 2 ^ 52 * A * 2 powi bitlen q"
  proof -
    have h: "bitlen p - 1 = 52 + (d - 53) + bitlen q" by (simp add: d_def)
    have f52: "(2::rat) powi 52 = 2 ^ 52" by (simp add: power_int_def)
    have "(2::rat) powi (bitlen p - 1) = 2 powi (52 + (d - 53) + bitlen q)"
      by (rule arg_cong [OF h])
    also have "\<dots> = 2 powi 52 * 2 powi (d - 53) * 2 powi bitlen q"
      by (simp only: two_powi_add)
    also have "\<dots> = 2 ^ 52 * A * 2 powi bitlen q"
      by (simp only: f52 A_def)
    finally show ?thesis .
  qed
  have e2: "(2::rat) powi bitlen p = 2 ^ 54 * A * 2 powi (bitlen q - 1)"
  proof -
    have h: "bitlen p = 54 + (d - 53) + (bitlen q - 1)" by (simp add: d_def)
    have f54: "(2::rat) powi 54 = 2 ^ 54" by (simp add: power_int_def)
    have "(2::rat) powi bitlen p = 2 powi (54 + (d - 53) + (bitlen q - 1))"
      by (rule arg_cong [OF h])
    also have "\<dots> = 2 powi 54 * 2 powi (d - 53) * 2 powi (bitlen q - 1)"
      by (simp only: two_powi_add)
    also have "\<dots> = 2 ^ 54 * A * 2 powi (bitlen q - 1)"
      by (simp only: f54 A_def)
    finally show ?thesis .
  qed
  have qpos: "(0::rat) < of_int q" using q by simp
  have low: "2 ^ 52 * A < x"
  proof -
    have "2 ^ 52 * A * of_int q < 2 ^ 52 * A * 2 powi bitlen q"
      using qhi A by simp
    also have "\<dots> \<le> of_int p" using lo e1 by simp
    finally show ?thesis using qpos by (simp add: x pos_less_divide_eq)
  qed
  have high: "x < 2 ^ 54 * A"
  proof -
    have "of_int p < (2::rat) powi bitlen p" by (rule hi)
    also have "\<dots> = 2 ^ 54 * A * 2 powi (bitlen q - 1)" by (rule e2)
    also have "\<dots> \<le> 2 ^ 54 * A * of_int q" using qlo A by simp
    finally show ?thesis using qpos by (simp add: x pos_divide_less_eq)
  qed
  have A2: "(2::rat) powi (d - 52) = 2 * A"
  proof -
    have h: "d - 52 = 1 + (d - 53)" by simp
    have "(2::rat) powi (d - 52) = 2 powi (1 + (d - 53))"
      by (rule arg_cong [OF h])
    also have "\<dots> = 2 powi 1 * 2 powi (d - 53)"
      by (simp only: two_powi_add)
    also have "\<dots> = 2 * A"
      by (simp only: A_def power_int_1_right)
    finally show ?thesis .
  qed
  show "2 ^ 52 \<le> x / 2 powi exponentOf x" and "x / 2 powi exponentOf x < 2 ^ 53"
  proof -
    have ex: "exponentOf x = (if x / A < 2 ^ 53 then d - 53 else d - 52)"
      by (simp add: exponentOf_def pq d_def A_def)
    have c1: "2 ^ 52 \<le> x / A" "x / A < 2 ^ 54"
      using low high A by (simp_all add: pos_le_divide_eq pos_divide_less_eq)
    show "2 ^ 52 \<le> x / 2 powi exponentOf x"
    proof (cases "x / A < 2 ^ 53")
      case True
      then show ?thesis using c1 by (simp add: ex A_def)
    next
      case False
      then have "2 ^ 53 \<le> x / A" by simp
      then have "2 ^ 52 \<le> x / (2 * A)" using A by (simp add: pos_le_divide_eq)
      with False show ?thesis by (simp add: ex A2)
    qed
    show "x / 2 powi exponentOf x < 2 ^ 53"
    proof (cases "x / A < 2 ^ 53")
      case True
      then show ?thesis by (simp add: ex A_def)
    next
      case False
      have "x / (2 * A) < 2 ^ 53" using c1(2) A by (simp add: pos_divide_less_eq)
      with False show ?thesis by (simp add: ex A2)
    qed
  qed
qed

lemma roundHalfEven_int: "roundHalfEven (of_int n) = n"
  by (simp add: roundHalfEven_def)

lemma toDouble_exact:
  assumes m: "0 < m" "m < 2 ^ 53"
  shows "toDouble (of_int m * 2 powi e) = of_int m * 2 powi e"
proof -
  let ?x = "of_int m * (2::rat) powi e"
  have x: "0 < ?x" using m by simp
  define k where "k = exponentOf ?x"
  have y: "?x / 2 powi k = of_int m * 2 powi (e - k)"
    by (simp add: power_int_diff)
  have b: "2 ^ 52 \<le> ?x / 2 powi k"
    unfolding k_def by (rule exponentOf_bounds(1) [OF x])
  have ge: "k \<le> e"
  proof (rule ccontr)
    assume "\<not> k \<le> e"
    then have "e - k \<le> -1" by simp
    then have "(2::rat) powi (e - k) \<le> 2 powi (-1)"
      by (intro power_int_increasing) simp_all
    then have "(2::rat) powi (e - k) \<le> 1 / 2" by (simp add: power_int_minus)
    then have "of_int m * (2::rat) powi (e - k) \<le> of_int m * (1 / 2)"
      using m by (intro mult_left_mono) simp_all
    moreover have "(of_int m :: rat) < 2 ^ 53"
      using m(2) of_int_less_iff [of m "2 ^ 53", where ?'a = rat] by simp
    ultimately have "of_int m * (2::rat) powi (e - k) < 2 ^ 52" by simp
    with b y show False by simp
  qed
  then have yk: "?x / 2 powi k = of_int (m * 2 ^ nat (e - k))"
    by (simp add: y two_powi_nat)
  have "toDouble ?x = of_int (roundHalfEven (?x / 2 powi k)) * 2 powi k"
    using x m by (simp add: toDouble_def k_def abs_of_pos)
  also have "\<dots> = (?x / 2 powi k) * 2 powi k"
    by (simp only: yk roundHalfEven_int)
  also have "\<dots> = ?x" by simp
  finally show ?thesis .
qed


lemma score_exact:
  assumes "c \<le> 2 ^ k" "k < 32"
  shows "toDouble (toDouble (of_nat c / of_nat (2 ^ k)) * 100) = of_nat c / of_nat (2 ^ k) * 100"
proof (cases "c = 0")
  case True
  then show ?thesis by (simp add: toDouble_def)
next
  case False
  have c32: "c < 2 ^ 32"
  proof -
    have "(2::nat) ^ k < 2 ^ 32" using assms(2) by (intro power_strict_increasing) simp_all
    with assms(1) show ?thesis by simp
  qed
  have q: "(of_nat c / of_nat (2 ^ k) :: rat) = of_int (int c) * 2 powi (- int k)"
    by (simp add: power_int_minus divide_inverse)
  have m1: "0 < int c" "int c < 2 ^ 53" using False c32 by simp_all
  have d: "toDouble (of_nat c / of_nat (2 ^ k)) = of_int (int c) * 2 powi (- int k)"
    unfolding q by (rule toDouble_exact [OF m1])
  have m2: "0 < int c * 100" "int c * 100 < 2 ^ 53" using False c32 by simp_all
  have step: "toDouble (of_nat c / of_nat (2 ^ k)) * 100
              = of_int (int c * 100) * 2 powi (- int k)"
    unfolding d by simp
  have ret: "of_int (int c * 100) * 2 powi (- int k) = (of_nat c / of_nat (2 ^ k) * 100 :: rat)"
    unfolding q by simp
  have "toDouble (toDouble (of_nat c / of_nat (2 ^ k)) * 100)
        = toDouble (of_int (int c * 100) * 2 powi (- int k))"
    by (simp only: step)
  also have "\<dots> = of_int (int c * 100) * 2 powi (- int k)"
    by (rule toDouble_exact [OF m2])
  also have "\<dots> = of_nat c / of_nat (2 ^ k) * 100"
    by (rule ret)
  finally show ?thesis .
qed

lemma roundHalfEven_error: "\<bar>of_int (roundHalfEven y) - y\<bar> \<le> 1 / 2"
proof -
  have "of_int \<lfloor>y\<rfloor> \<le> y" "y < of_int \<lfloor>y\<rfloor> + 1" by linarith+
  then show ?thesis by (auto simp: roundHalfEven_def abs_le_iff)
qed

lemma toDouble_error:
  assumes "0 < x"
  shows "\<bar>toDouble x - x\<bar> \<le> x / 2 ^ 53"
proof -
  define E where "E = (2::rat) powi exponentOf x"
  define y where "y = x / E"
  have E: "0 < E" by (simp add: E_def)
  have x: "x = y * E" using E by (simp add: y_def)
  have lo: "2 ^ 52 \<le> y"
    unfolding y_def E_def by (rule exponentOf_bounds(1) [OF assms])
  have d: "toDouble x = of_int (roundHalfEven y) * E"
    using assms by (simp add: toDouble_def y_def E_def abs_of_pos)
  have xe: "y * E = x" using E by (simp add: y_def)
  have "toDouble x - x = (of_int (roundHalfEven y) - y) * E"
    by (simp only: left_diff_distrib d xe)
  then have "\<bar>toDouble x - x\<bar> = \<bar>of_int (roundHalfEven y) - y\<bar> * E"
    using E by (simp add: abs_mult abs_of_pos)
  also have "\<dots> \<le> 1 / 2 * E"
    using E roundHalfEven_error [of y] by (intro mult_right_mono) simp_all
  also have "\<dots> \<le> y / 2 ^ 53 * E"
    using E lo by (intro mult_right_mono) simp_all
  also have "\<dots> = x / 2 ^ 53" by (simp add: x)
  finally show ?thesis .
qed

lemma score_error:
  assumes "c \<le> t" "0 < t"
  shows "\<bar>toDouble (toDouble (of_nat c / of_nat t) * 100) - of_nat c / of_nat t * 100\<bar>
           \<le> 1 / 2 ^ 45"
    and "0 \<le> toDouble (toDouble (of_nat c / of_nat t) * 100)"
proof -
  define q :: rat where "q = of_nat c / of_nat t"
  define d where "d = toDouble q"
  define p where "p = d * 100"
  have q1: "q \<le> 1" using assms by (simp add: q_def)
  have both: "\<bar>toDouble p - q * 100\<bar> \<le> 1 / 2 ^ 45 \<and> 0 \<le> toDouble p"
  proof (cases "c = 0")
    case True
    then show ?thesis by (simp add: p_def d_def q_def toDouble_def)
  next
    case False
    then have q0: "0 < q" using assms by (simp add: q_def)
    have e1: "\<bar>d - q\<bar> \<le> q / 2 ^ 53"
      unfolding d_def by (rule toDouble_error [OF q0])
    have e1': "\<bar>d - q\<bar> \<le> 1 / 2 ^ 53"
      using e1 q1 by (simp add: field_simps)
    have dpos: "0 < d"
    proof -
      have "q / 2 ^ 53 < q" using q0 by (simp add: field_simps)
      with e1 show ?thesis by linarith
    qed
    have dle: "d \<le> 1 + 1 / 2 ^ 53"
      using e1' q1 by linarith
    have p0: "0 < p" using dpos by (simp add: p_def)
    have e2: "\<bar>toDouble p - p\<bar> \<le> p / 2 ^ 53"
      by (rule toDouble_error [OF p0])
    have ple: "p \<le> 101" using dle by (simp add: p_def)
    have e2': "\<bar>toDouble p - p\<bar> \<le> 101 / 2 ^ 53"
      using e2 ple by (simp add: field_simps)
    have e3: "\<bar>p - q * 100\<bar> \<le> 100 / 2 ^ 53"
      using e1' unfolding p_def by linarith
    have "\<bar>toDouble p - q * 100\<bar> \<le> \<bar>toDouble p - p\<bar> + \<bar>p - q * 100\<bar>"
      by simp
    also have "\<dots> \<le> 101 / 2 ^ 53 + 100 / 2 ^ 53"
      using e2' e3 by (rule add_mono)
    also have "\<dots> \<le> 1 / 2 ^ 45" by simp
    finally have a: "\<bar>toDouble p - q * 100\<bar> \<le> 1 / 2 ^ 45" .
    have "p / 2 ^ 53 \<le> p" using p0 by (simp add: field_simps)
    with e2 have b: "0 \<le> toDouble p" by linarith
    from a b show ?thesis ..
  qed
  from both show "\<bar>toDouble (toDouble (of_nat c / of_nat t) * 100) - of_nat c / of_nat t * 100\<bar>
           \<le> 1 / 2 ^ 45"
    and "0 \<le> toDouble (toDouble (of_nat c / of_nat t) * 100)"
    by (simp_all add: p_def d_def q_def)
qed

text \<open>What \<open>checkAnswers\<close> computes, without and with a current table.\<close>

lemma fold_answers:
  "fold (\<lambda>(i, r) answers. case selected i of None \<Rightarrow> answers | Some b \<Rightarrow> answers(i \<mapsto> b))
     (enumerate k rs) m =
   (\<lambda>i. if k \<le> i \<and> i < k + length rs
        then (case selected i of None \<Rightarrow> m i | Some b \<Rightarrow> Some b) else m i)"
proof (induction rs arbitrary: k m)
  case Nil
  show ?case by (auto simp: fun_eq_iff)
next
  case (Cons r rs)
  have eq: "\<And>x. \<not> Suc k \<le> x \<Longrightarrow> k \<le> x \<Longrightarrow> x = k" by arith
  show ?case
    by (auto simp: Cons.IH fun_eq_iff split: option.splits dest: eq)
qed

lemma fold_answers_empty:
  "fold (\<lambda>(i, r) answers. case selected i of None \<Rightarrow> answers | Some b \<Rightarrow> answers(i \<mapsto> b))
     (enumerate 0 rs) Map.empty =
   (\<lambda>i. if i < length rs then selected i else None)"
  by (auto simp: fold_answers fun_eq_iff split: option.splits)

lemma collectUserAnswers_table:
  assumes "currentTable g = Some t"
  shows "collectUserAnswers selected g =
     (\<lambda>i. if i < length (rows t) then selected i else None,
      g\<lparr>userAnswers := \<lambda>i. if i < length (rows t) then selected i else None\<rparr>)"
  using assms by (simp add: collectUserAnswers_def fold_answers_empty Let_def)

lemma checkRows_eq:
  "checkRows answers irs (c, a, out) =
     (c + length (filter (\<lambda>ir. isCorrect (rowResultOf answers ir)) irs),
      a + length (filter (isAnswered answers) irs),
      out @ map (rowResultOf answers) irs)"
proof (induction irs arbitrary: c a out)
  case Nil
  show ?case by simp
next
  case (Cons ir irs)
  obtain i r where ir: "ir = (i, r)" by (cases ir)
  show ?case
    by (cases "answers i")
       (simp_all add: ir Cons.IH rowResultOf_def isAnswered_def push_def Let_def)
qed

lemma correct_le_answered:
  "length (filter (\<lambda>ir. isCorrect (rowResultOf answers ir)) irs)
     \<le> length (filter (isAnswered answers) irs)"
proof (induction irs)
  case Nil
  show ?case by simp
next
  case (Cons ir irs)
  obtain i r where ir: "ir = (i, r)" by (cases ir)
  from Cons show ?case
    by (cases "answers i") (simp_all add: ir rowResultOf_def isAnswered_def)
qed

lemma checkAnswers_noTable:
  assumes "currentTable g = None"
  shows "checkAnswers selected g =
     (\<lparr>correct = 0, total = 0, answered = None, isComplete = False,
       results = None, score = None\<rparr>, g)"
  using assms by (simp add: checkAnswers_def collectUserAnswers_def)

lemma checkAnswers_table:
  assumes "currentTable g = Some t"
  shows "fst (checkAnswers selected g) =
     \<lparr>correct = length (filter (\<lambda>ir. isCorrect (rowResultOf
                   (\<lambda>i. if i < length (rows t) then selected i else None) ir))
                   (enumerate 0 (rows t))),
      total = length (rows t),
      answered = Some (length (filter (isAnswered
                   (\<lambda>i. if i < length (rows t) then selected i else None))
                   (enumerate 0 (rows t)))),
      isComplete = (length (filter (isAnswered
                   (\<lambda>i. if i < length (rows t) then selected i else None))
                   (enumerate 0 (rows t))) = length (rows t)),
      results = Some (map (rowResultOf (\<lambda>i. if i < length (rows t) then selected i else None))
                   (enumerate 0 (rows t))),
      score = Some (if length (rows t) > 0
                    then ScoreFixed (toFixed1 (toDouble (toDouble
                           (of_nat (length (filter (\<lambda>ir. isCorrect (rowResultOf
                              (\<lambda>i. if i < length (rows t) then selected i else None) ir))
                              (enumerate 0 (rows t)))) / of_nat (length (rows t))) * 100)))
                    else ScoreNumber 0)\<rparr>"
  using assms
  by (simp add: checkAnswers_def collectUserAnswers_table checkRows_eq)

lemma enumerate_map: "enumerate 0 rs = map (\<lambda>i. (i, rs ! i)) [0..<length rs]"
  by (rule nth_equalityI) (simp_all add: nth_enumerate_eq)

lemma length_filter_enumerate:
  "length (filter P (enumerate 0 rs)) = length (filter (\<lambda>i. P (i, rs ! i)) [0..<length rs])"
  by (simp add: enumerate_map filter_map comp_def)

lemma answered_count:
  "length (filter (isAnswered (\<lambda>i. if i < length rs then selected i else None)) (enumerate 0 rs))
   = length (filter (\<lambda>i. selected i \<noteq> None) [0..<length rs])"
proof -
  have "filter (\<lambda>i. isAnswered (\<lambda>i. if i < length rs then selected i else None) (i, rs ! i))
          [0..<length rs]
        = filter (\<lambda>i. selected i \<noteq> None) [0..<length rs]"
    by (rule filter_cong) (auto simp: isAnswered_def split: option.splits)
  then show ?thesis by (simp add: length_filter_enumerate)
qed

lemma correct_count:
  "length (filter (\<lambda>ir. isCorrect (rowResultOf (\<lambda>i. if i < length rs then selected i else None) ir))
     (enumerate 0 rs))
   = length (filter (\<lambda>i. case selected i of None \<Rightarrow> False | Some b \<Rightarrow> JBool b = result (rs ! i))
       [0..<length rs])"
proof -
  have "filter (\<lambda>i. isCorrect (rowResultOf (\<lambda>i. if i < length rs then selected i else None)
                  (i, rs ! i))) [0..<length rs]
        = filter (\<lambda>i. case selected i of None \<Rightarrow> False | Some b \<Rightarrow> JBool b = result (rs ! i))
            [0..<length rs]"
    by (rule filter_cong) (auto simp: rowResultOf_def split: option.splits)
  then show ?thesis by (simp add: length_filter_enumerate)
qed

lemma toFixed1_bounds:
  "x - 1 / 20 < (of_int (toFixed1 x) / 10 :: rat) \<and> (of_int (toFixed1 x) / 10 :: rat) \<le> x + 1 / 20"
proof -
  have "of_int (toFixed1 x) \<le> x * 10 + 1 / 2" "x * 10 + 1 / 2 < of_int (toFixed1 x) + 1"
    unfolding toFixed1_def by linarith+
  then show ?thesis by (simp add: field_simps)
qed

lemma score_range:
  assumes "c \<le> t" "0 < t"
  shows "0 \<le> toFixed1 (toDouble (toDouble (of_nat c / of_nat t) * 100))"
    and "toFixed1 (toDouble (toDouble (of_nat c / of_nat t) * 100)) \<le> 1000"
    and "\<bar>of_int (toFixed1 (toDouble (toDouble (of_nat c / of_nat t) * 100))) / 10
           - (of_nat c / of_nat t * 100 :: rat)\<bar> \<le> 1 / 20 + 1 / 2 ^ 45"
proof -
  define q :: rat where "q = of_nat c / of_nat t * 100"
  define d where "d = toDouble (toDouble (of_nat c / of_nat t) * 100)"
  define n where "n = toFixed1 d"
  have "(of_nat c / of_nat t :: rat) \<le> 1" using assms by simp
  then have "(of_nat c / of_nat t :: rat) * 100 \<le> 1 * 100"
    by (intro mult_right_mono) simp_all
  then have q: "q \<le> 100" by (simp only: q_def mult_1)
  have e: "\<bar>d - q\<bar> \<le> 1 / 2 ^ 45" and d0: "0 \<le> d"
    unfolding d_def q_def by (rule score_error [OF assms])+
  have b: "d - 1 / 20 < of_int n / 10" "of_int n / 10 \<le> d + 1 / 20"
    using toFixed1_bounds [of d] by (simp_all add: n_def)
  have "(0::rat) < 1 / 2 ^ 45" by simp
  moreover have "(1::rat) / 2 ^ 45 < 1 / 20" by simp
  ultimately have "(-1::rat) < of_int n" "(of_int n :: rat) < 1001"
    using b e d0 q by linarith+
  then have "-1 < n" "n < 1001"
    using of_int_less_iff [of "-1" n, where ?'a = rat]
          of_int_less_iff [of n 1001, where ?'a = rat] by simp_all
  then have r: "0 \<le> n" "n \<le> 1000" by simp_all
  have a: "\<bar>of_int n / 10 - q\<bar> \<le> 1 / 20 + 1 / 2 ^ 45"
    using b e by linarith
  from r a show "0 \<le> toFixed1 (toDouble (toDouble (of_nat c / of_nat t) * 100))"
    and "toFixed1 (toDouble (toDouble (of_nat c / of_nat t) * 100)) \<le> 1000"
    and "\<bar>of_int (toFixed1 (toDouble (toDouble (of_nat c / of_nat t) * 100))) / 10
           - (of_nat c / of_nat t * 100 :: rat)\<bar> \<le> 1 / 20 + 1 / 2 ^ 45"
    by (simp_all add: n_def d_def q_def)
qed

text \<open>
  C7 as stated fails in two places. With no current table \<open>checkAnswers\<close> returns
  \<open>{correct: 0, total: 0, isComplete: false}\<close>: \<open>total\<close> is 0 and the result has neither an
  \<open>answered\<close> count nor a \<open>score\<close>, so the score is not 0. And on a table of 80 rows with
  23 correct answers the score is \<open>"28.7"\<close>, while \<open>23 / 80 * 100\<close> is 28.75 and rounds to
  28.8: the quotient and the product are rounded to doubles first, and the product comes
  out just below 28.75.
\<close>

theorem checkAnswers_counterexample:
  "fst (checkAnswers sampleAnswers \<lparr>currentTable = None, userAnswers = Map.empty\<rparr>)
     = \<lparr>correct = 0, total = 0, answered = None, isComplete = False,
        results = None, score = None\<rparr>
   \<and> total (fst (checkAnswers wideAnswers
        \<lparr>currentTable = Some wideTable, userAnswers = Map.empty\<rparr>)) = 80
   \<and> correct (fst (checkAnswers wideAnswers
        \<lparr>currentTable = Some wideTable, userAnswers = Map.empty\<rparr>)) = 23
   \<and> score (fst (checkAnswers wideAnswers
        \<lparr>currentTable = Some wideTable, userAnswers = Map.empty\<rparr>)) = Some (ScoreFixed 287)
   \<and> toFixed1 (23 / 80 * 100) = 288"
proof -
  have a: "fst (checkAnswers sampleAnswers \<lparr>currentTable = None, userAnswers = Map.empty\<rparr>)
     = \<lparr>correct = 0, total = 0, answered = None, isComplete = False,
        results = None, score = None\<rparr>"
    by (simp add: checkAnswers_noTable)
  have b: "total (fst (checkAnswers wideAnswers
        \<lparr>currentTable = Some wideTable, userAnswers = Map.empty\<rparr>)) = 80"
    by code_simp
  have c: "correct (fst (checkAnswers wideAnswers
        \<lparr>currentTable = Some wideTable, userAnswers = Map.empty\<rparr>)) = 23"
    by code_simp
  have d: "score (fst (checkAnswers wideAnswers
        \<lparr>currentTable = Some wideTable, userAnswers = Map.empty\<rparr>)) = Some (ScoreFixed 287)"
    by code_simp
  have e: "toFixed1 (23 / 80 * 100) = 288"
    by code_simp
  from a b c d e show ?thesis by blast
qed

text \<open>
  C7, amended: with no current table \<open>checkAnswers\<close> returns \<open>correct\<close> 0, \<open>total\<close> 0 and
  \<open>isComplete\<close> false, and no \<open>answered\<close>, \<open>results\<close> or \<open>score\<close>. For a generator that holds
  a table, the result has \<open>total\<close> the number of rows, \<open>answered\<close> the number of rows with a
  submitted answer, and \<open>correct \<le> answered \<le> total\<close>; \<open>isComplete\<close> holds exactly when
  \<open>answered = total\<close>; the score is the number 0 when \<open>total\<close> is 0, and otherwise the string
  \<open>(correct / total * 100).toFixed(1)\<close> of double arithmetic: a one-decimal number from 0.0
  to 100.0 that differs from \<open>correct / total * 100\<close> by at most \<open>0.05 + 2^-45\<close>. When
  \<open>total\<close> is a power of two below \<open>2^32\<close>, as in every table \<open>generateTable\<close> produces, the
  double arithmetic is exact and the score is the one-decimal number nearest to
  \<open>correct / total * 100\<close>, a tie going up.
\<close>

theorem checkAnswers_counts:
  "(currentTable g = None \<longrightarrow>
      fst (checkAnswers selected g) =
        \<lparr>correct = 0, total = 0, answered = None, isComplete = False,
         results = None, score = None\<rparr>)
   \<and> (currentTable g = Some t \<and> r = fst (checkAnswers selected g)
        \<and> a = length (filter (\<lambda>i. selected i \<noteq> None) [0..<length (rows t)]) \<longrightarrow>
      total r = length (rows t) \<and> answered r = Some a \<and> correct r \<le> a \<and> a \<le> total r
      \<and> isComplete r = (a = total r)
      \<and> correct r = length (filter (\<lambda>i. case selected i of None \<Rightarrow> False
                                         | Some b \<Rightarrow> JBool b = result (rows t ! i))
                        [0..<length (rows t)])
      \<and> (total r = 0 \<longrightarrow> score r = Some (ScoreNumber 0))
      \<and> (0 < total r \<longrightarrow>
           (\<exists>n. score r = Some (ScoreFixed n)
              \<and> n = toFixed1 (toDouble (toDouble (of_nat (correct r) / of_nat (total r)) * 100))
              \<and> 0 \<le> n \<and> n \<le> 1000
              \<and> \<bar>of_int n / 10 - (of_nat (correct r) / of_nat (total r) * 100 :: rat)\<bar>
                   \<le> 1 / 20 + 1 / 2 ^ 45))
      \<and> (k < 32 \<and> total r = 2 ^ k \<longrightarrow>
           (\<exists>n. score r = Some (ScoreFixed n)
              \<and> n = toFixed1 (of_nat (correct r) / of_nat (total r) * 100)
              \<and> of_nat (correct r) / of_nat (total r) * 100 - 1 / 20 < (of_int n / 10 :: rat)
              \<and> (of_int n / 10 :: rat) \<le> of_nat (correct r) / of_nat (total r) * 100 + 1 / 20)))"
proof -
  have none: "currentTable g = None \<longrightarrow>
      fst (checkAnswers selected g) =
        \<lparr>correct = 0, total = 0, answered = None, isComplete = False,
         results = None, score = None\<rparr>"
    by (simp add: checkAnswers_noTable)
  have some: "total r = length (rows t) \<and> answered r = Some a \<and> correct r \<le> a \<and> a \<le> total r
      \<and> isComplete r = (a = total r)
      \<and> correct r = length (filter (\<lambda>i. case selected i of None \<Rightarrow> False
                                         | Some b \<Rightarrow> JBool b = result (rows t ! i))
                        [0..<length (rows t)])
      \<and> (total r = 0 \<longrightarrow> score r = Some (ScoreNumber 0))
      \<and> (0 < total r \<longrightarrow>
           (\<exists>n. score r = Some (ScoreFixed n)
              \<and> n = toFixed1 (toDouble (toDouble (of_nat (correct r) / of_nat (total r)) * 100))
              \<and> 0 \<le> n \<and> n \<le> 1000
              \<and> \<bar>of_int n / 10 - (of_nat (correct r) / of_nat (total r) * 100 :: rat)\<bar>
                   \<le> 1 / 20 + 1 / 2 ^ 45))
      \<and> (k < 32 \<and> total r = 2 ^ k \<longrightarrow>
           (\<exists>n. score r = Some (ScoreFixed n)
              \<and> n = toFixed1 (of_nat (correct r) / of_nat (total r) * 100)
              \<and> of_nat (correct r) / of_nat (total r) * 100 - 1 / 20 < (of_int n / 10 :: rat)
              \<and> (of_int n / 10 :: rat) \<le> of_nat (correct r) / of_nat (total r) * 100 + 1 / 20))"
    if cur: "currentTable g = Some t" and rdef: "r = fst (checkAnswers selected g)"
      and adef: "a = length (filter (\<lambda>i. selected i \<noteq> None) [0..<length (rows t)])"
  proof -
    let ?ans = "\<lambda>i. if i < length (rows t) then selected i else None"
    let ?c = "length (filter (\<lambda>ir. isCorrect (rowResultOf ?ans ir)) (enumerate 0 (rows t)))"
    let ?a = "length (filter (isAnswered ?ans) (enumerate 0 (rows t)))"
    let ?d = "toDouble (toDouble (of_nat (correct r) / of_nat (total r)) * 100)"
    let ?x = "of_nat (correct r) / of_nat (total r) * 100 :: rat"
    note req = rdef [unfolded checkAnswers_table [OF cur]]
    have a: "?a = a" unfolding adef by (rule answered_count)
    have tot: "total r = length (rows t)" and c: "correct r = ?c" and an: "answered r = Some a"
      and ic: "isComplete r = (a = length (rows t))"
      using a by (simp_all add: req)
    have le1: "correct r \<le> a" unfolding c a [symmetric] by (rule correct_le_answered)
    have le2: "a \<le> total r"
      unfolding tot a [symmetric]
      using length_filter_le [of "isAnswered ?ans" "enumerate 0 (rows t)"] by simp
    have le3: "correct r \<le> total r" using le1 le2 by simp
    have cc: "correct r = length (filter (\<lambda>i. case selected i of None \<Rightarrow> False
                                       | Some b \<Rightarrow> JBool b = result (rows t ! i))
                      [0..<length (rows t)])"
      unfolding c by (rule correct_count)
    have s0: "total r = 0 \<longrightarrow> score r = Some (ScoreNumber 0)"
      by (simp add: req)
    have sc: "score r = Some (ScoreFixed (toFixed1 ?d))" if "0 < total r"
      using that by (simp add: req)
    have s1: "0 < total r \<longrightarrow>
           (\<exists>n. score r = Some (ScoreFixed n) \<and> n = toFixed1 ?d \<and> 0 \<le> n \<and> n \<le> 1000
              \<and> \<bar>of_int n / 10 - ?x\<bar> \<le> 1 / 20 + 1 / 2 ^ 45)"
    proof
      assume pos: "0 < total r"
      from sc [OF pos] score_range [OF le3 pos]
      show "\<exists>n. score r = Some (ScoreFixed n) \<and> n = toFixed1 ?d \<and> 0 \<le> n \<and> n \<le> 1000
              \<and> \<bar>of_int n / 10 - ?x\<bar> \<le> 1 / 20 + 1 / 2 ^ 45"
        by blast
    qed
    have s2: "k < 32 \<and> total r = 2 ^ k \<longrightarrow>
           (\<exists>n. score r = Some (ScoreFixed n) \<and> n = toFixed1 ?x
              \<and> ?x - 1 / 20 < (of_int n / 10 :: rat) \<and> (of_int n / 10 :: rat) \<le> ?x + 1 / 20)"
    proof
      assume h: "k < 32 \<and> total r = 2 ^ k"
      then have k: "k < 32" and tk: "total r = 2 ^ k" by simp_all
      have pos: "0 < total r" by (simp add: tk)
      have ck: "correct r \<le> 2 ^ k" using le3 by (simp only: tk)
      have "toDouble (toDouble (of_nat (correct r) / of_nat (2 ^ k)) * 100)
              = of_nat (correct r) / of_nat (2 ^ k) * 100"
        by (rule score_exact [OF ck k])
      then have ex: "?d = ?x" by (simp only: tk)
      have "score r = Some (ScoreFixed (toFixed1 ?x))"
        using sc [OF pos] by (simp only: ex)
      with toFixed1_bounds [of ?x]
      show "\<exists>n. score r = Some (ScoreFixed n) \<and> n = toFixed1 ?x
              \<and> ?x - 1 / 20 < (of_int n / 10 :: rat) \<and> (of_int n / 10 :: rat) \<le> ?x + 1 / 20"
        by blast
    qed
    from tot an le1 le2 ic cc s0 s1 s2 show ?thesis by simp
  qed
  from none some show ?thesis by blast
qed

text \<open>
  C10: in the list of per-row results, the entry of a row with no submitted answer has
  the row's position as index, \<open>null\<close> as user answer, the stored result as correct answer
  and \<open>isCorrect\<close> false; the entry of an answered row carries the submitted answer, and
  its \<open>isCorrect\<close> is true exactly when that answer equals the stored result.
\<close>

theorem checkAnswers_rows:
  assumes "currentTable g = Some t" and "i < length (rows t)"
  shows "\<exists>out. results (fst (checkAnswers selected g)) = Some out
     \<and> length out = length (rows t)
     \<and> (selected i = None \<longrightarrow>
          out ! i = \<lparr>rowIndex = i, rowUserAnswer = JNull,
                     correctAnswer = result (rows t ! i), isCorrect = False\<rparr>)
     \<and> (\<forall>b. selected i = Some b \<longrightarrow>
          out ! i = \<lparr>rowIndex = i, rowUserAnswer = JBool b,
                     correctAnswer = result (rows t ! i),
                     isCorrect = (JBool b = result (rows t ! i))\<rparr>)"
  using assms(2)
  by (simp add: checkAnswers_table [OF assms(1)] nth_enumerate_eq rowResultOf_def)

lemma rows_sample: "length (rows sampleTable) = 4"
  by (simp add: sampleTable_def)

theorem checkAnswers_counts_witness:
  "currentTable \<lparr>currentTable = None, userAnswers = Map.empty\<rparr> = None
   \<and> fst (checkAnswers sampleAnswers \<lparr>currentTable = None, userAnswers = Map.empty\<rparr>)
       = \<lparr>correct = 0, total = 0, answered = None, isComplete = False,
          results = None, score = None\<rparr>
   \<and> currentTable \<lparr>currentTable = Some sampleTable, userAnswers = Map.empty\<rparr> = Some sampleTable
   \<and> total (fst (checkAnswers sampleAnswers
        \<lparr>currentTable = Some sampleTable, userAnswers = Map.empty\<rparr>)) = 2 ^ 2
   \<and> (2::nat) < 32
   \<and> answered (fst (checkAnswers sampleAnswers
        \<lparr>currentTable = Some sampleTable, userAnswers = Map.empty\<rparr>)) = Some 2
   \<and> correct (fst (checkAnswers sampleAnswers
        \<lparr>currentTable = Some sampleTable, userAnswers = Map.empty\<rparr>)) \<le> 2
   \<and> isComplete (fst (checkAnswers sampleAnswers
        \<lparr>currentTable = Some sampleTable, userAnswers = Map.empty\<rparr>)) = False
   \<and> score (fst (checkAnswers sampleAnswers
        \<lparr>currentTable = Some sampleTable, userAnswers = Map.empty\<rparr>)) = Some (ScoreFixed 250)
   \<and> total (fst (checkAnswers sampleAnswers
        \<lparr>currentTable = Some \<lparr>expression = [], tableVariables = [], rows = []\<rparr>,
         userAnswers = Map.empty\<rparr>)) = 0
   \<and> score (fst (checkAnswers sampleAnswers
        \<lparr>currentTable = Some \<lparr>expression = [], tableVariables = [], rows = []\<rparr>,
         userAnswers = Map.empty\<rparr>)) = Some (ScoreNumber 0)"
proof -
  let ?n = "\<lparr>currentTable = None, userAnswers = Map.empty\<rparr>"
  let ?g = "\<lparr>currentTable = Some sampleTable, userAnswers = Map.empty\<rparr>"
  let ?e = "\<lparr>expression = [], tableVariables = [], rows = []\<rparr>"
  let ?h = "\<lparr>currentTable = Some ?e, userAnswers = Map.empty\<rparr>"
  let ?r = "fst (checkAnswers sampleAnswers ?g)"
  let ?s = "fst (checkAnswers sampleAnswers ?h)"
  have no: "currentTable ?n = None" by simp
  have cur: "currentTable ?g = Some sampleTable" by simp
  have cur0: "currentTable ?h = Some ?e" by simp
  have a: "(2::nat) = length (filter (\<lambda>i. sampleAnswers i \<noteq> None)
                               [0..<length (rows sampleTable)])"
    by code_simp
  have a0: "(0::nat) = length (filter (\<lambda>i. sampleAnswers i \<noteq> None) [0..<length (rows ?e)])"
    by simp
  have k: "(2::nat) < 32" by simp
  note thn = checkAnswers_counts [of ?n sampleAnswers sampleTable ?r 2 2]
  note th = checkAnswers_counts [of ?g sampleAnswers sampleTable ?r 2 2]
  note th0 = checkAnswers_counts [of ?h sampleAnswers ?e ?s 0 2]
  from thn no have n: "fst (checkAnswers sampleAnswers ?n)
       = \<lparr>correct = 0, total = 0, answered = None, isComplete = False,
          results = None, score = None\<rparr>"
    by blast
  from th cur a have t: "total ?r = length (rows sampleTable)" and an: "answered ?r = Some 2"
    and le: "correct ?r \<le> 2" and ic: "isComplete ?r = (2 = total ?r)"
    by blast+
  have t4: "total ?r = 2 ^ 2" by (simp only: t rows_sample) simp
  have nc: "isComplete ?r = False" by (simp add: ic t4)
  from th cur a k t4 obtain n where sn: "score ?r = Some (ScoreFixed n)"
    and nn: "n = toFixed1 (of_nat (correct ?r) / of_nat (total ?r) * 100)"
    by blast
  have "toFixed1 (of_nat (correct ?r) / of_nat (total ?r) * 100) = 250"
    by code_simp
  with sn nn have sc: "score ?r = Some (ScoreFixed 250)" by simp
  from th0 cur0 a0 have t0: "total ?s = length (rows ?e)"
    and z: "total ?s = 0 \<longrightarrow> score ?s = Some (ScoreNumber 0)"
    by blast+
  from t0 have t00: "total ?s = 0" by simp
  with z have s0: "score ?s = Some (ScoreNumber 0)" by blast
  from no n cur t4 k an le nc sc t00 s0 show ?thesis by blast
qed

theorem checkAnswers_rows_witness:
  "currentTable \<lparr>currentTable = Some sampleTable, userAnswers = Map.empty\<rparr> = Some sampleTable
   \<and> (3::nat) < length (rows sampleTable) \<and> (2::nat) < length (rows sampleTable)
   \<and> (\<exists>out. results (fst (checkAnswers sampleAnswers
          \<lparr>currentTable = Some sampleTable, userAnswers = Map.empty\<rparr>)) = Some out
        \<and> out ! 3 = \<lparr>rowIndex = 3, rowUserAnswer = JBool True,
                      correctAnswer = JBool True, isCorrect = True\<rparr>
        \<and> out ! 2 = \<lparr>rowIndex = 2, rowUserAnswer = JNull,
                      correctAnswer = JBool False, isCorrect = False\<rparr>)"
proof -
  let ?g = "\<lparr>currentTable = Some sampleTable, userAnswers = Map.empty\<rparr>"
  have cur: "currentTable ?g = Some sampleTable" by simp
  have i3: "(3::nat) < length (rows sampleTable)" and i1: "(2::nat) < length (rows sampleTable)"
    by (simp_all add: rows_sample)
  have r3: "result (rows sampleTable ! 3) = JBool True"
    and r1: "result (rows sampleTable ! 2) = JBool False"
    by (simp_all add: sampleTable_def)
  have s3: "sampleAnswers 3 = Some True" and s1: "sampleAnswers 2 = None"
    by (simp_all add: sampleAnswers_def)
  from checkAnswers_rows [OF cur i3, of sampleAnswers]
  obtain out where o: "results (fst (checkAnswers sampleAnswers ?g)) = Some out"
    and o3: "out ! 3 = \<lparr>rowIndex = 3, rowUserAnswer = JBool True,
                      correctAnswer = JBool True, isCorrect = True\<rparr>"
    by (auto simp: s3 r3)
  from checkAnswers_rows [OF cur i1, of sampleAnswers]
  obtain out' where o': "results (fst (checkAnswers sampleAnswers ?g)) = Some out'"
    and o1: "out' ! 2 = \<lparr>rowIndex = 2, rowUserAnswer = JNull,
                      correctAnswer = JBool False, isCorrect = False\<rparr>"
    by (auto simp: s1 r1)
  from o o' have "out' = out" by simp
  with o o3 o1 cur i3 i1 show ?thesis by blast
qed

end
